theory Spec2Isabelle
  imports Main "HOL-Library.Sublist"
begin

section \<open>Python strings\<close>

text \<open>
  A Python \<open>str\<close> is a sequence of Unicode code points. It is modelled as a list of
  natural numbers (the code points), so that \<open>ord\<close> is the identity and the surrogate
  range and the control characters of the JSON code are what they are in Python.
  \<open>py\<close> turns a literal into such a string.
\<close>

type_synonym pychar = nat
type_synonym pystr = "nat list"

definition py :: "string \<Rightarrow> pystr" where
  "py s = map of_char s"

abbreviation DQUOTE :: pychar where "DQUOTE \<equiv> 34"
abbreviation COMMA :: pychar where "COMMA \<equiv> 44"
abbreviation NEWLINE :: pychar where "NEWLINE \<equiv> 10"
abbreviation BACKSLASH :: pychar where "BACKSLASH \<equiv> 92"

text \<open>\<open>s[a:b]\<close> and \<open>s[a:]\<close> for non-negative indices.\<close>

definition py_slice :: "pystr \<Rightarrow> nat \<Rightarrow> nat \<Rightarrow> pystr" where
  "py_slice s a b = take (b - a) (drop a s)"

definition py_slice_from :: "pystr \<Rightarrow> nat \<Rightarrow> pystr" where
  "py_slice_from s a = drop a s"

text \<open>\<open>s.startswith(p, i)\<close>, \<open>s.endswith(p)\<close> and \<open>p in s\<close>.\<close>

definition py_startswith :: "pystr \<Rightarrow> pystr \<Rightarrow> nat \<Rightarrow> bool" where
  "py_startswith s p i = (i \<le> length s \<and> take (length p) (drop i s) = p)"

definition py_endswith :: "pystr \<Rightarrow> pystr \<Rightarrow> bool" where
  "py_endswith s p = (length p \<le> length s \<and> drop (length s - length p) s = p)"

fun py_contains :: "pystr \<Rightarrow> pystr \<Rightarrow> bool" where
  "py_contains p [] = (p = [])"
| "py_contains p (x # xs) = (take (length p) (x # xs) = p \<or> py_contains p xs)"

text \<open>
  \<open>s.replace(old, new)\<close>: the occurrences of \<open>old\<close> are found from the left and do
  not overlap; an empty \<open>old\<close> matches before every character and at the end.
\<close>

function py_replace :: "pystr \<Rightarrow> pystr \<Rightarrow> pystr \<Rightarrow> pystr" where
  "py_replace old new s =
     (if old = [] then new @ concat (map (\<lambda>c. c # new) s)
      else if s = [] then []
      else if take (length old) s = old
        then new @ py_replace old new (drop (length old) s)
      else hd s # py_replace old new (tl s))"
  by pat_completeness auto
termination
  by (relation "measure (\<lambda>(old, new, s). length s)") auto

declare py_replace.simps [simp del]

text \<open>\<open>s.strip(chars)\<close> removes every leading and every trailing character of \<open>chars\<close>.\<close>

definition py_strip :: "pystr \<Rightarrow> pystr \<Rightarrow> pystr" where
  "py_strip chars s =
     rev (dropWhile (\<lambda>c. c \<in> set chars) (rev (dropWhile (\<lambda>c. c \<in> set chars) s)))"

text \<open>\<open>sep.join(xs)\<close>.\<close>

fun py_join :: "pystr \<Rightarrow> pystr list \<Rightarrow> pystr" where
  "py_join sep [] = []"
| "py_join sep [x] = x"
| "py_join sep (x # y # ys) = x @ sep @ py_join sep (y # ys)"

section \<open>Errors\<close>

text \<open>
  Every \<open>raise\<close> of the two modules is a value. A message keeps the numbers that the
  source formats into its text; \<open>Position index line column\<close> is what
  \<open>format_err_str\<close> substitutes for \<open>$position$\<close>.
\<close>

datatype position = Position nat nat nat

datatype message =
    EndOfFile nat
  | ExpectedEndOfInput nat
  | UnexpectedCharacter pychar position
  | ExpectedColon pychar position
  | ExpectedCommaOrBrace pychar position
  | ExpectedCommaOrBracket pychar position
  | ExpectedNull pystr position
  | ExpectedBoolean pystr position
  | ExpectedStringStart pychar position
  | ExpectedHexCharacter pychar position
  | UnknownEscape pychar position
  | ForbiddenStringCharacter pychar position
  | EmptyNumber position
  | DecimalPointFirst position
  | DigitAfterZero position
  | DecimalPointLast position
  | EmptyNonExponent position
  | SecondDecimalPoint position
  | ExpectedDigit pychar position
  | EndOfNumber position
  | CsvUnexpectedQuote nat nat nat nat nat
  | CsvExpectedSeparator nat nat nat nat nat
  | CsvEndOfInput nat
  | NotFinite
  | UnsupportedType

datatype error =
    SyntaxError message
  | TypeError message
  | IndexError
  | OverflowError
  | UnboundLocalError

section \<open>csv\_lib: the position of an index\<close>

text \<open>
  \<open>get_line_and_col\<close> reads \<open>text[i]\<close> for every \<open>i\<close> below \<open>index\<close>; a read past
  the end raises \<open>IndexError\<close>. The indices of the callers are never negative, so they
  are natural numbers here.
\<close>

fun line_col_loop :: "pystr \<Rightarrow> nat list \<Rightarrow> nat \<times> nat \<Rightarrow> error + nat \<times> nat" where
  "line_col_loop text [] acc = Inr acc"
| "line_col_loop text (i # is) (line_count, last_line_index) =
     (if length text \<le> i then Inl IndexError
      else if text ! i = NEWLINE then line_col_loop text is (line_count + 1, i)
      else line_col_loop text is (line_count, last_line_index))"

definition get_line_and_col :: "pystr \<Rightarrow> nat \<Rightarrow> error + nat \<times> nat" where
  "get_line_and_col text index =
     (case line_col_loop text [0..<index] (0, 0) of
        Inl e \<Rightarrow> Inl e
      | Inr (line_count, last_line_index) \<Rightarrow> Inr (line_count, index - last_line_index))"

section \<open>csv\_lib: serialising\<close>

definition str_to_csv :: "pystr \<Rightarrow> pystr \<Rightarrow> pystr \<Rightarrow> pystr \<Rightarrow> pystr" where
  "str_to_csv csv quote_char comma_char new_line_char =
     (if py_contains quote_char csv \<or> py_contains comma_char csv \<or> py_contains new_line_char csv
      then [DQUOTE] @ py_replace [DQUOTE] [DQUOTE, DQUOTE] csv @ [DQUOTE]
      else csv)"

definition strs_to_csv :: "pystr list list \<Rightarrow> pystr \<Rightarrow> pystr \<Rightarrow> pystr \<Rightarrow> pystr" where
  "strs_to_csv csv quote_char comma_char new_line_char =
     py_join new_line_char
       (map (\<lambda>row. py_join comma_char
               (map (\<lambda>cell. str_to_csv cell quote_char comma_char new_line_char) row)) csv)"

section \<open>csv\_lib: parsing\<close>

definition unescape_csv_cell :: "pystr \<Rightarrow> pystr" where
  "unescape_csv_cell cell = py_replace [DQUOTE, DQUOTE] [DQUOTE] (py_strip [DQUOTE] cell)"

record csv_state =
  lines :: "pystr list list"
  current_row :: "pystr list"
  out_of_cell :: bool
  cell_start_ind :: nat
  cell_is_quoted :: bool
  last_was_quote :: bool

definition csv_init :: csv_state where
  "csv_init = \<lparr>lines = [], current_row = [], out_of_cell = True, cell_start_ind = 0,
               cell_is_quoted = False, last_was_quote = False\<rparr>"

text \<open>
  One pass of the body of the \<open>for\<close> loop, at index \<open>i < len(csv)\<close>. \<open>s1\<close> is the
  state after the block that enters a cell.
\<close>

definition csv_step ::
  "pystr \<Rightarrow> pystr \<Rightarrow> pystr \<Rightarrow> pystr \<Rightarrow> csv_state \<Rightarrow> nat \<Rightarrow> error + csv_state" where
  "csv_step csv quote_char comma_char new_line_char s i =
     (let c = [csv ! i];
          could_be_cell_end = (c = comma_char \<or> c = new_line_char);
          s1 = (if out_of_cell s
                then s\<lparr>out_of_cell := False, cell_start_ind := i, last_was_quote := False,
                        cell_is_quoted := (c = quote_char)\<rparr>
                else s)
      in if out_of_cell s \<and> \<not> could_be_cell_end then Inr s1
         else if \<not> cell_is_quoted s1 \<and> c = quote_char then
           (case get_line_and_col csv i of
              Inl e \<Rightarrow> Inl e
            | Inr (line, col) \<Rightarrow>
                Inl (SyntaxError (CsvUnexpectedQuote i (length (lines s1))
                                    (length (current_row s1)) line col)))
         else if cell_is_quoted s1 \<and> last_was_quote s1 \<and> \<not> could_be_cell_end then
           (if c = quote_char then Inr (s1\<lparr>last_was_quote := False\<rparr>)
            else (case get_line_and_col csv i of
                    Inl e \<Rightarrow> Inl e
                  | Inr (line, col) \<Rightarrow>
                      Inl (SyntaxError (CsvExpectedSeparator i (length (lines s1))
                                          (length (current_row s1)) line col))))
         else if (if cell_is_quoted s1 then last_was_quote s1 else True) \<and> could_be_cell_end then
           (let cell_text = py_slice csv (cell_start_ind s1) i;
                cell_text = (if cell_is_quoted s1 then unescape_csv_cell cell_text else cell_text);
                row = current_row s1 @ [cell_text]
            in Inr (s1\<lparr>out_of_cell := True, last_was_quote := False,
                       current_row := (if c = new_line_char then [] else row),
                       lines := (if c = new_line_char then lines s1 @ [row] else lines s1),
                       cell_is_quoted := False\<rparr>))
         else Inr (s1\<lparr>last_was_quote := (cell_is_quoted s1 \<and> c = quote_char)\<rparr>))"

fun csv_loop ::
  "pystr \<Rightarrow> pystr \<Rightarrow> pystr \<Rightarrow> pystr \<Rightarrow> csv_state \<Rightarrow> nat list \<Rightarrow> error + csv_state" where
  "csv_loop csv quote_char comma_char new_line_char s [] = Inr s"
| "csv_loop csv quote_char comma_char new_line_char s (i # is) =
     (case csv_step csv quote_char comma_char new_line_char s i of
        Inl e \<Rightarrow> Inl e
      | Inr s' \<Rightarrow> csv_loop csv quote_char comma_char new_line_char s' is)"

text \<open>The state in which the scan of the whole input ends, or the error it raises.\<close>

definition csv_scan :: "pystr \<Rightarrow> pystr \<Rightarrow> pystr \<Rightarrow> pystr \<Rightarrow> error + csv_state" where
  "csv_scan csv quote_char comma_char new_line_char =
     csv_loop csv quote_char comma_char new_line_char csv_init [0..<length csv]"

text \<open>The code after the loop: the trailing cell and the trailing row.\<close>

definition csv_finish :: "pystr \<Rightarrow> pystr \<Rightarrow> csv_state \<Rightarrow> error + pystr list list" where
  "csv_finish csv comma_char s =
     (if cell_is_quoted s \<and> \<not> last_was_quote s
      then Inl (SyntaxError (CsvEndOfInput (length csv)))
      else
        (let row =
           (if cell_is_quoted s
              then current_row s @ [unescape_csv_cell (py_slice_from csv (cell_start_ind s))]
            else if \<not> out_of_cell s
              then current_row s @ [py_slice_from csv (cell_start_ind s)]
            else if py_endswith csv comma_char then current_row s @ [[]]
            else current_row s)
         in Inr (if row \<noteq> [] then lines s @ [row] else lines s)))"

definition parse_csv :: "pystr \<Rightarrow> pystr \<Rightarrow> pystr \<Rightarrow> pystr \<Rightarrow> error + pystr list list" where
  "parse_csv csv quote_char comma_char new_line_char =
     (case csv_scan csv quote_char comma_char new_line_char of
        Inl e \<Rightarrow> Inl e
      | Inr s \<Rightarrow> csv_finish csv comma_char s)"

text \<open>The default delimiters of \<open>parse_csv\<close> and \<open>strs_to_csv\<close>.\<close>

definition csv_parse :: "pystr \<Rightarrow> error + pystr list list" where
  "csv_parse csv = parse_csv csv [DQUOTE] [COMMA] [NEWLINE]"

definition csv_serialize :: "pystr list list \<Rightarrow> pystr" where
  "csv_serialize t = strs_to_csv t [DQUOTE] [COMMA] [NEWLINE]"

section \<open>json\_lib: the position in an error message\<close>

text \<open>
  \<open>format_err_str\<close> runs the same loop as \<open>get_line_and_col\<close> and puts
  \<open>index (line: ..., column: ...)\<close> into the message; here it returns the three numbers.
\<close>

definition format_err_str :: "pystr \<Rightarrow> nat \<Rightarrow> error + position" where
  "format_err_str text index =
     (case line_col_loop text [0..<index] (0, 0) of
        Inl e \<Rightarrow> Inl e
      | Inr (line_count, last_line_index) \<Rightarrow>
          Inr (Position index line_count (index - last_line_index)))"

section \<open>json\_lib: values and numbers\<close>

text \<open>
  The values \<open>to_json\<close> takes and \<open>parse_json\<close> returns. A \<open>dict\<close> is the list of its
  items in insertion order (its keys are strings and distinct); \<open>PObject\<close> stands for
  a value of any other Python type. Python's \<open>float\<close> is a type parameter: the built-ins
  \<open>float(s)\<close>, \<open>str(x)\<close> and \<open>math.isfinite(x)\<close> on it are the fields of \<open>float_ops\<close>.
\<close>

datatype 'f pyval =
    PNone
  | PBool bool
  | PInt int
  | PFloat 'f
  | PStr pystr
  | PList "'f pyval list"
  | PDict "(pystr \<times> 'f pyval) list"
  | PObject

record 'f float_ops =
  float_of_str :: "pystr \<Rightarrow> 'f"
  str_of_float :: "'f \<Rightarrow> pystr"
  isfinite :: "'f \<Rightarrow> bool"

text \<open>\<open>d[key] = val\<close> on a dict: an existing key keeps its place.\<close>

fun dict_set :: "(pystr \<times> 'v) list \<Rightarrow> pystr \<Rightarrow> 'v \<Rightarrow> (pystr \<times> 'v) list" where
  "dict_set [] key val = [(key, val)]"
| "dict_set ((k, v) # d) key val =
     (if k = key then (k, val) # d else (k, v) # dict_set d key val)"

abbreviation LBRACE :: pychar where "LBRACE \<equiv> 123"
abbreviation RBRACE :: pychar where "RBRACE \<equiv> 125"
abbreviation LBRACKET :: pychar where "LBRACKET \<equiv> 91"
abbreviation RBRACKET :: pychar where "RBRACKET \<equiv> 93"
abbreviation COLON :: pychar where "COLON \<equiv> 58"
abbreviation MINUS :: pychar where "MINUS \<equiv> 45"
abbreviation PLUS :: pychar where "PLUS \<equiv> 43"
abbreviation DOT :: pychar where "DOT \<equiv> 46"
abbreviation ZERO :: pychar where "ZERO \<equiv> 48"
abbreviation NINE :: pychar where "NINE \<equiv> 57"

definition JSON_WHITESPACE :: "pychar list" where
  "JSON_WHITESPACE = [32, 9, 13, 10]"

definition JSON_NUM_START_CHARS :: "pychar list" where
  "JSON_NUM_START_CHARS = [48, 49, 50, 51, 52, 53, 54, 55, 56, 57, 45]"

definition JSON_NUM_CHARS :: "pychar list" where
  "JSON_NUM_CHARS = [48, 49, 50, 51, 52, 53, 54, 55, 56, 57, 46, 101, 69, 43, 45]"

text \<open>
  \<open>c.lower()\<close> of one character, as far as the code depends on it: the result is only
  compared with the digits and with \<open>a\<close> to \<open>f\<close> (or \<open>e\<close>), and the capital ASCII
  letters are the only other characters whose lower case lies there.
\<close>

definition py_lower :: "pychar \<Rightarrow> pychar" where
  "py_lower c = (if 65 \<le> c \<and> c \<le> 90 then c + 32 else c)"

text \<open>\<open>int(h, 16)\<close> of a string of lower-case hexadecimal digits, and \<open>hex(n)[2:]\<close>.\<close>

definition hex_value :: "pychar \<Rightarrow> nat" where
  "hex_value c = (if c \<le> NINE then c - ZERO else c - 87)"

definition py_int16 :: "pystr \<Rightarrow> nat" where
  "py_int16 h = foldl (\<lambda>a c. 16 * a + hex_value c) 0 h"

definition hex_digit :: "nat \<Rightarrow> pychar" where
  "hex_digit d = (if d < 10 then ZERO + d else 87 + d)"

function py_hex :: "nat \<Rightarrow> pystr" where
  "py_hex n = (if n < 16 then [hex_digit n] else py_hex (n div 16) @ [hex_digit (n mod 16)])"
  by pat_completeness auto
termination
  by (relation "measure id") auto

declare py_hex.simps [simp del]

definition py_rjust :: "nat \<Rightarrow> pychar \<Rightarrow> pystr \<Rightarrow> pystr" where
  "py_rjust width fill s = replicate (width - length s) fill @ s"

text \<open>\<open>str(n)\<close> of an \<open>int\<close>.\<close>

function py_str_nat :: "nat \<Rightarrow> pystr" where
  "py_str_nat n = (if n < 10 then [ZERO + n] else py_str_nat (n div 10) @ [ZERO + n mod 10])"
  by pat_completeness auto
termination
  by (relation "measure id") auto

declare py_str_nat.simps [simp del]

definition py_str_int :: "int \<Rightarrow> pystr" where
  "py_str_int n = (if n < 0 then MINUS # py_str_nat (nat (- n)) else py_str_nat (nat n))"

section \<open>json\_lib: parsing\<close>

text \<open>\<open>raise SyntaxError(format_err_str(message, json, i))\<close>.\<close>

definition syntax_error_at :: "(position \<Rightarrow> message) \<Rightarrow> pystr \<Rightarrow> nat \<Rightarrow> error" where
  "syntax_error_at msg json i =
     (case format_err_str json i of Inl e \<Rightarrow> e | Inr p \<Rightarrow> SyntaxError (msg p))"

text \<open>\<open>except IndexError: raise SyntaxError("Unexpected end of file ...")\<close>.\<close>

definition catch_IndexError :: "pystr \<Rightarrow> error + 'a \<Rightarrow> error + 'a" where
  "catch_IndexError json r =
     (case r of Inl IndexError \<Rightarrow> Inl (SyntaxError (EndOfFile (length json))) | _ \<Rightarrow> r)"

function skip_whitespace :: "pystr \<Rightarrow> nat \<Rightarrow> nat" where
  "skip_whitespace json i =
     (if i < length json \<and> json ! i \<in> set JSON_WHITESPACE
      then skip_whitespace json (i + 1) else i)"
  by pat_completeness auto
termination
  by (relation "measure (\<lambda>(json, i). length json - i)") auto

declare skip_whitespace.simps [simp del]

definition parse_json_null :: "pystr \<Rightarrow> nat \<Rightarrow> error + 'f pyval \<times> nat" where
  "parse_json_null json i =
     (if \<not> py_startswith json (py ''null'') i
      then Inl (syntax_error_at (ExpectedNull (py_slice json i (i + 4))) json i)
      else Inr (PNone, i + 4))"

definition parse_json_boolean :: "pystr \<Rightarrow> nat \<Rightarrow> error + 'f pyval \<times> nat" where
  "parse_json_boolean json i =
     (if \<not> py_startswith json (py ''true'') i \<and> \<not> py_startswith json (py ''false'') i
      then Inl (syntax_error_at (ExpectedBoolean (py_slice json i (i + 5))) json i)
      else if py_slice json i (i + 4) = py ''true'' then Inr (PBool True, i + 4)
      else Inr (PBool False, i + 5))"

text \<open>
  The \<open>while True\<close> loop of \<open>parse_json_str\<close>. Reading \<open>json[i]\<close> past the end raises
  \<open>IndexError\<close>, which the \<open>try\<close> around the loop turns into the end-of-file error.
\<close>

function str_loop ::
  "pystr \<Rightarrow> nat \<Rightarrow> bool \<Rightarrow> pystr \<Rightarrow> pystr option \<Rightarrow> error + pystr \<times> nat" where
  "str_loop json i last_was_esc char_list hex_char_str =
     (if length json \<le> i then Inl IndexError
      else
        (case hex_char_str of
           Some h \<Rightarrow>
             (if (ZERO \<le> py_lower (json ! i) \<and> py_lower (json ! i) \<le> NINE)
                 \<or> (97 \<le> py_lower (json ! i) \<and> py_lower (json ! i) \<le> 102)
              then
                (if length (h @ [py_lower (json ! i)]) = 4
                 then str_loop json (i + 1) last_was_esc
                        (char_list @ [py_int16 (h @ [py_lower (json ! i)])]) None
                 else str_loop json (i + 1) last_was_esc char_list
                        (Some (h @ [py_lower (json ! i)])))
              else Inl (syntax_error_at (ExpectedHexCharacter (json ! i)) json (i + 1)))
         | None \<Rightarrow>
             (if json ! i = DQUOTE \<and> \<not> last_was_esc then Inr (char_list, i + 1)
              else if last_was_esc then
                (if json ! i = 98 then str_loop json (i + 1) False (char_list @ [8]) None
                 else if json ! i = 102 then str_loop json (i + 1) False (char_list @ [12]) None
                 else if json ! i = 110 then str_loop json (i + 1) False (char_list @ [10]) None
                 else if json ! i = 116 then str_loop json (i + 1) False (char_list @ [9]) None
                 else if json ! i = 114 then str_loop json (i + 1) False (char_list @ [13]) None
                 else if json ! i = 47 then str_loop json (i + 1) False (char_list @ [47]) None
                 else if json ! i = DQUOTE
                   then str_loop json (i + 1) False (char_list @ [DQUOTE]) None
                 else if json ! i = BACKSLASH
                   then str_loop json (i + 1) False (char_list @ [BACKSLASH]) None
                 else if json ! i = 117 then str_loop json (i + 1) False char_list (Some [])
                 else Inl (syntax_error_at (UnknownEscape (json ! i)) json (i + 1)))
              else if json ! i = BACKSLASH then str_loop json (i + 1) True char_list None
              else if \<not> ((32 \<le> json ! i \<and> json ! i \<le> 33) \<or> (35 \<le> json ! i \<and> json ! i \<le> 91)
                         \<or> (93 \<le> json ! i \<and> json ! i \<le> 1114111))
                then Inl (syntax_error_at (ForbiddenStringCharacter (json ! i)) json (i + 1))
              else str_loop json (i + 1) last_was_esc (char_list @ [json ! i]) None)))"
  by pat_completeness auto
termination
  by (relation "measure (\<lambda>(json, i, e, cs, h). length json - i)") auto

declare str_loop.simps [simp del]

definition parse_json_str :: "pystr \<Rightarrow> nat \<Rightarrow> error + pystr \<times> nat" where
  "parse_json_str json i =
     (if length json \<le> i then Inl IndexError
      else if json ! i \<noteq> DQUOTE
        then Inl (syntax_error_at (ExpectedStringStart (json ! i)) json i)
      else catch_IndexError json (str_loop json (i + 1) False [] None))"

text \<open>The first index from \<open>ind\<close> on that does not hold a character of a number.\<close>

function number_end :: "pystr \<Rightarrow> nat \<Rightarrow> nat" where
  "number_end json ind =
     (if ind < length json \<and> json ! ind \<in> set JSON_NUM_CHARS
      then number_end json (ind + 1) else ind)"
  by pat_completeness auto
termination
  by (relation "measure (\<lambda>(json, ind). length json - ind)") auto

declare number_end.simps [simp del]

text \<open>
  The loop over \<open>before_e\<close>: it returns the index \<open>i\<close>, which it advances at a decimal
  point only.
\<close>

fun before_e_loop :: "pystr \<Rightarrow> pystr \<Rightarrow> bool \<Rightarrow> nat \<Rightarrow> error + nat" where
  "before_e_loop json [] reached_dec i = Inr i"
| "before_e_loop json (c # cs) reached_dec i =
     (if c = DOT then
        (if reached_dec then Inl (syntax_error_at SecondDecimalPoint json i)
         else before_e_loop json cs True (i + 1))
      else if c < ZERO \<or> c > NINE then Inl (syntax_error_at (ExpectedDigit c) json i)
      else before_e_loop json cs reached_dec i)"

fun after_e_loop :: "pystr \<Rightarrow> pystr \<Rightarrow> nat \<Rightarrow> error + nat" where
  "after_e_loop json [] i = Inr i"
| "after_e_loop json (c # cs) i =
     (if c < ZERO \<or> c > NINE then Inl (syntax_error_at (ExpectedDigit c) json i)
      else after_e_loop json cs (i + 1))"

text \<open>
  \<open>parse_json_number\<close> in three parts, in the order of the source: the checks at the
  start of the token, the part before the exponent, and the exponent. \<open>num\<close> is the
  token without its sign and \<open>full\<close> the string that \<open>float\<close> is applied to.
\<close>

definition number_exponent ::
  "'f float_ops \<Rightarrow> pystr \<Rightarrow> pystr \<Rightarrow> nat \<Rightarrow> pystr \<Rightarrow> nat \<Rightarrow> error + 'f pyval \<times> nat" where
  "number_exponent F json num e_index full ind =
     (if e_index \<noteq> length num then
        (let after_e0 = py_slice_from num (e_index + 1);
             signed = (py_startswith after_e0 [PLUS] 0 \<or> py_startswith after_e0 [MINUS] 0);
             after_e = (if signed then py_slice_from after_e0 1 else after_e0);
             i = (if signed then e_index + 1 + 1 else e_index + 1)
         in if length after_e = 0 then Inl (syntax_error_at EndOfNumber json i)
            else
              (case after_e_loop json after_e i of
                 Inl e \<Rightarrow> Inl e
               | Inr i \<Rightarrow> Inr (PFloat (float_of_str F full), ind)))
      else Inr (PFloat (float_of_str F full), ind))"

definition number_before_exponent ::
  "'f float_ops \<Rightarrow> pystr \<Rightarrow> pystr \<Rightarrow> nat \<Rightarrow> pystr \<Rightarrow> nat \<Rightarrow> error + 'f pyval \<times> nat" where
  "number_before_exponent F json num i full ind =
     (let e_index = length (takeWhile (\<lambda>c. py_lower c \<noteq> 101) num);
          before_e = py_slice num 0 e_index
      in if py_endswith before_e [DOT]
           then Inl (syntax_error_at DecimalPointLast json (i + length before_e - 1))
         else if length before_e = 0 then Inl (syntax_error_at EmptyNonExponent json i)
         else
           (case before_e_loop json before_e False i of
              Inl e \<Rightarrow> Inl e
            | Inr i \<Rightarrow> number_exponent F json num e_index full ind))"

definition parse_json_number ::
  "'f float_ops \<Rightarrow> pystr \<Rightarrow> nat \<Rightarrow> error + 'f pyval \<times> nat" where
  "parse_json_number F json i0 =
     (let ind = number_end json i0;
          num0 = py_slice json i0 ind;
          negative = py_startswith num0 [MINUS] 0
      in if length num0 = 0 then Inl (syntax_error_at EmptyNumber json i0)
      else
        (let num = (if negative then py_slice_from num0 1 else num0);
             i = (if negative then i0 + 1 else i0)
         in if py_startswith num [DOT] 0 then Inl (syntax_error_at DecimalPointFirst json i)
         else if length num \<ge> 2 \<and> num ! 0 = ZERO \<and> num ! 1 \<ge> ZERO \<and> num ! 1 \<le> NINE
           then Inl (syntax_error_at DigitAfterZero json (i + 1))
         else number_before_exponent F json num i
                (if negative then MINUS # num else num) ind))"

text \<open>
  The mutually recursive parsers. The recursion of the source is bounded by the input;
  here a counter \<open>fuel\<close> bounds it, and \<open>None\<close> means that the counter ran out. In
  \<open>obj_loop\<close> the argument \<open>c\<close> is the local variable \<open>c\<close> of \<open>parse_json_obj\<close>, which
  is unbound until the first value has been parsed.
\<close>

function (sequential) parse_json_base ::
      "'f float_ops \<Rightarrow> nat \<Rightarrow> pystr \<Rightarrow> nat \<Rightarrow> (error + 'f pyval \<times> nat) option"
  and parse_json_obj ::
      "'f float_ops \<Rightarrow> nat \<Rightarrow> pystr \<Rightarrow> nat \<Rightarrow> (error + 'f pyval \<times> nat) option"
  and obj_loop ::
      "'f float_ops \<Rightarrow> nat \<Rightarrow> pystr \<Rightarrow> (pystr \<times> 'f pyval) list \<Rightarrow> pychar option \<Rightarrow> nat
         \<Rightarrow> (error + 'f pyval \<times> nat) option"
  and parse_json_arr ::
      "'f float_ops \<Rightarrow> nat \<Rightarrow> pystr \<Rightarrow> nat \<Rightarrow> (error + 'f pyval \<times> nat) option"
  and arr_loop ::
      "'f float_ops \<Rightarrow> nat \<Rightarrow> pystr \<Rightarrow> 'f pyval list \<Rightarrow> nat
         \<Rightarrow> (error + 'f pyval \<times> nat) option"
where
  "parse_json_base F 0 json i0 = None"
| "parse_json_base F (Suc fuel) json i0 =
     (let i = skip_whitespace json i0 in
      if length json \<le> i then Some (Inl (SyntaxError (EndOfFile (length json))))
      else if json ! i = LBRACE then parse_json_obj F fuel json i
      else if json ! i = LBRACKET then parse_json_arr F fuel json i
      else if json ! i = DQUOTE then
        Some (case parse_json_str json i of Inl e \<Rightarrow> Inl e | Inr (s, j) \<Rightarrow> Inr (PStr s, j))
      else if json ! i = 110 then Some (parse_json_null json i)
      else if json ! i = 116 \<or> json ! i = 102 then Some (parse_json_boolean json i)
      else if json ! i \<in> set JSON_NUM_START_CHARS then Some (parse_json_number F json i)
      else Some (Inl (syntax_error_at (UnexpectedCharacter (json ! i)) json i)))"
| "parse_json_obj F fuel json i0 =
     (if length json \<le> i0 then Some (Inl IndexError)
      else if json ! i0 \<noteq> LBRACE then Some (Inl UnboundLocalError)
      else
        (let i = skip_whitespace json (i0 + 1) in
         map_option (catch_IndexError json)
           (if length json \<le> i then Some (Inl IndexError)
            else if json ! i = RBRACE then Some (Inr (PDict [], i + 1))
            else obj_loop F fuel json [] None i)))"
| "obj_loop F 0 json obj c i0 = None"
| "obj_loop F (Suc fuel) json obj c i0 =
     (case parse_json_str json i0 of
        Inl e \<Rightarrow> Some (Inl e)
      | Inr (key, i1) \<Rightarrow>
          (let i2 = skip_whitespace json i1 in
           if length json \<le> i2 then Some (Inl IndexError)
           else if json ! i2 \<noteq> COLON then
             Some (Inl (case c of
                          None \<Rightarrow> UnboundLocalError
                        | Some c' \<Rightarrow> syntax_error_at (ExpectedColon c') json i2))
           else
             (case parse_json_base F fuel json (skip_whitespace json (i2 + 1)) of
                None \<Rightarrow> None
              | Some (Inl e) \<Rightarrow> Some (Inl e)
              | Some (Inr (val, i3)) \<Rightarrow>
                  (let i4 = skip_whitespace json i3 in
                   if length json \<le> i4 then Some (Inl IndexError)
                   else if json ! i4 = RBRACE
                     then Some (Inr (PDict (dict_set obj key val), i4 + 1))
                   else if json ! i4 \<noteq> COMMA then
                     Some (Inl (syntax_error_at (ExpectedCommaOrBrace (json ! i4)) json i4))
                   else obj_loop F fuel json (dict_set obj key val) (Some (json ! i4))
                          (skip_whitespace json (i4 + 1))))))"
| "parse_json_arr F fuel json i0 =
     (if length json \<le> i0 then Some (Inl IndexError)
      else if json ! i0 \<noteq> LBRACKET then Some (Inl UnboundLocalError)
      else
        (let i = skip_whitespace json (i0 + 1) in
         map_option (catch_IndexError json)
           (if length json \<le> i then Some (Inl IndexError)
            else if json ! i = RBRACKET then Some (Inr (PList [], i + 1))
            else arr_loop F fuel json [] i)))"
| "arr_loop F 0 json arr i0 = None"
| "arr_loop F (Suc fuel) json arr i0 =
     (case parse_json_base F fuel json i0 of
        None \<Rightarrow> None
      | Some (Inl e) \<Rightarrow> Some (Inl e)
      | Some (Inr (val, i1)) \<Rightarrow>
          (let i2 = skip_whitespace json i1 in
           if length json \<le> i2 then Some (Inl IndexError)
           else if json ! i2 = RBRACKET then Some (Inr (PList (arr @ [val]), i2 + 1))
           else if json ! i2 \<noteq> COMMA then
             Some (Inl (syntax_error_at (ExpectedCommaOrBracket (json ! i2)) json i2))
           else arr_loop F fuel json (arr @ [val]) (skip_whitespace json (i2 + 1))))"
  by pat_completeness auto
termination
  by (relation "measure (\<lambda>x. case x of
          Inl (Inl (F, fuel, rest)) \<Rightarrow> 2 * fuel
        | Inl (Inr (F, fuel, rest)) \<Rightarrow> 2 * fuel + 1
        | Inr (Inl (F, fuel, rest)) \<Rightarrow> 2 * fuel
        | Inr (Inr (Inl (F, fuel, rest))) \<Rightarrow> 2 * fuel + 1
        | Inr (Inr (Inr (F, fuel, rest))) \<Rightarrow> 2 * fuel)") auto

text \<open>
  \<open>parse_json\<close>. The counter starts at twice the length of the input plus one, which the
  parsers cannot use up: each of their calls follows at most two others at the same index.
\<close>

definition parse_json :: "'f float_ops \<Rightarrow> pystr \<Rightarrow> (error + 'f pyval) option" where
  "parse_json F json =
     (case parse_json_base F (2 * length json + 1) json 0 of
        None \<Rightarrow> None
      | Some (Inl e) \<Rightarrow> Some (Inl e)
      | Some (Inr (parsed, i)) \<Rightarrow>
          (if skip_whitespace json i < length json
           then Some (Inl (SyntaxError (ExpectedEndOfInput (skip_whitespace json i))))
           else Some (Inr parsed)))"

section \<open>json\_lib: serialising\<close>

definition increase_indent :: "pystr \<Rightarrow> pystr \<Rightarrow> pystr" where
  "increase_indent text spaces = py_replace [NEWLINE] ([NEWLINE] @ spaces) text"

definition escape_str_for_json :: "pystr \<Rightarrow> pystr" where
  "escape_str_for_json string =
     (let s1 = py_replace [DQUOTE] [BACKSLASH, DQUOTE]
                 (py_replace [BACKSLASH] [BACKSLASH, BACKSLASH] string);
          s2 = py_replace [12] [BACKSLASH, 102]
                 (py_replace [9] [BACKSLASH, 116]
                   (py_replace [8] [BACKSLASH, 98]
                     (py_replace [13] [BACKSLASH, 114]
                       (py_replace [NEWLINE] [BACKSLASH, 110] s1))))
      in [DQUOTE]
         @ concat (map (\<lambda>n. if n \<le> 31 \<or> (55296 \<le> n \<and> n \<le> 57343)
                             then [BACKSLASH, 117] @ py_rjust 4 ZERO (py_hex n)
                             else [n]) s2)
         @ [DQUOTE])"

text \<open>
  The argument \<open>spaces\<close> is \<open>None\<close>, an \<open>int\<close> or a \<open>str\<close>; an \<open>int\<close> becomes that many
  space characters (none when it is negative).
\<close>

datatype spaces = SpacesInt int | SpacesStr pystr

definition spaces_str :: "spaces option \<Rightarrow> pystr option" where
  "spaces_str spaces =
     (case spaces of
        None \<Rightarrow> None
      | Some (SpacesInt n) \<Rightarrow> Some (replicate (nat n) 32)
      | Some (SpacesStr s) \<Rightarrow> Some s)"

text \<open>\<open>if num.endswith('.0'): num = num[:-2]\<close>.\<close>

definition chop_point_zero :: "pystr \<Rightarrow> pystr" where
  "chop_point_zero num = (if py_endswith num [DOT, ZERO] then take (length num - 2) num else num)"

text \<open>
  \<open>to_json\<close> with its two \<open>for\<close> loops, which append to \<open>str_arr\<close>. The loop over a dict
  runs over its items, the value being \<open>data[key]\<close>. \<open>math.isfinite\<close> of an \<open>int\<close>
  converts it to a float first and raises \<open>OverflowError\<close> when it rounds beyond the
  largest float.
\<close>

fun to_json :: "'f float_ops \<Rightarrow> 'f pyval \<Rightarrow> spaces option \<Rightarrow> error + pystr"
  and dict_loop ::
    "'f float_ops \<Rightarrow> (pystr \<times> 'f pyval) list \<Rightarrow> pystr option \<Rightarrow> bool \<Rightarrow> pystr list
       \<Rightarrow> error + pystr list"
  and list_loop ::
    "'f float_ops \<Rightarrow> 'f pyval list \<Rightarrow> pystr option \<Rightarrow> bool \<Rightarrow> pystr list
       \<Rightarrow> error + pystr list"
where
  "to_json F PNone spaces = Inr (py ''null'')"
| "to_json F (PStr s) spaces = Inr (escape_str_for_json s)"
| "to_json F (PBool b) spaces = Inr (if b then py ''true'' else py ''false'')"
| "to_json F (PInt n) spaces =
     (if 2 ^ 1024 - 2 ^ 970 \<le> \<bar>n\<bar> then Inl OverflowError
      else Inr (chop_point_zero (py_str_int n)))"
| "to_json F (PFloat x) spaces =
     (if \<not> isfinite F x then Inl (TypeError NotFinite)
      else Inr (chop_point_zero (str_of_float F x)))"
| "to_json F (PDict data) spaces =
     (if length data = 0 then Inr (py ''{}'')
      else
        (case dict_loop F data (spaces_str spaces) True [[LBRACE]] of
           Inl e \<Rightarrow> Inl e
         | Inr str_arr \<Rightarrow>
             Inr (concat (str_arr
                          @ (if spaces_str spaces \<noteq> None then [[NEWLINE]] else [])
                          @ [[RBRACE]]))))"
| "to_json F (PList data) spaces =
     (if length data = 0 then Inr (py ''[]'')
      else
        (case list_loop F data (spaces_str spaces) True [[LBRACKET]] of
           Inl e \<Rightarrow> Inl e
         | Inr str_arr \<Rightarrow>
             Inr (concat (str_arr
                          @ (if spaces_str spaces \<noteq> None then [[NEWLINE]] else [])
                          @ [[RBRACKET]]))))"
| "to_json F PObject spaces = Inl (TypeError UnsupportedType)"
| "dict_loop F [] sp is_first str_arr = Inr str_arr"
| "dict_loop F ((key, val) # rest) sp is_first str_arr =
     (case to_json F val (map_option SpacesStr sp) of
        Inl e \<Rightarrow> Inl e
      | Inr stringified \<Rightarrow>
          dict_loop F rest sp False
            (str_arr
             @ (if is_first then [] else [[COMMA]])
             @ (case sp of None \<Rightarrow> [] | Some s \<Rightarrow> [[NEWLINE], s])
             @ [escape_str_for_json key, [COLON]]
             @ (case sp of None \<Rightarrow> [] | Some s \<Rightarrow> [[32]])
             @ [case sp of None \<Rightarrow> stringified | Some s \<Rightarrow> increase_indent stringified s]))"
| "list_loop F [] sp is_first str_arr = Inr str_arr"
| "list_loop F (val # rest) sp is_first str_arr =
     (case to_json F val (map_option SpacesStr sp) of
        Inl e \<Rightarrow> Inl e
      | Inr stringified \<Rightarrow>
          list_loop F rest sp False
            (str_arr
             @ (if is_first then [] else [[COMMA]])
             @ (case sp of None \<Rightarrow> [] | Some s \<Rightarrow> [[NEWLINE], s])
             @ [case sp of None \<Rightarrow> stringified | Some s \<Rightarrow> increase_indent stringified s]))"

section \<open>A model of the floats for examples\<close>

text \<open>
  The floats that are integers, written by \<open>str\<close> with a trailing \<open>.0\<close> as Python
  writes them, and read back from their decimal digits. The theorems below hold for any
  \<open>float_ops\<close>; this one instantiates them.
\<close>

definition digits_value :: "pystr \<Rightarrow> nat" where
  "digits_value ds = foldl (\<lambda>a c. 10 * a + (c - ZERO)) 0 ds"

definition int_of_digits :: "pystr \<Rightarrow> int" where
  "int_of_digits s =
     (case s of
        [] \<Rightarrow> 0
      | c # cs \<Rightarrow> if c = MINUS then - int (digits_value cs) else int (digits_value s))"

definition integral_floats :: "int float_ops" where
  "integral_floats =
     \<lparr>float_of_str = int_of_digits,
      str_of_float = (\<lambda>x. py_str_int x @ [DOT, ZERO]),
      isfinite = (\<lambda>x. True)\<rparr>"

section \<open>Notions of the specification\<close>

text \<open>The indices below \<open>offset\<close> at which \<open>text\<close> has a newline character, in order.\<close>

definition newlines_before :: "pystr \<Rightarrow> nat \<Rightarrow> nat list" where
  "newlines_before text offset = filter (\<lambda>i. text ! i = NEWLINE) [0..<offset]"

text \<open>
  What the CSV scan keeps true of its state: no completed row is empty, and outside a
  cell the quoted flag is off.
\<close>

definition csv_inv :: "csv_state \<Rightarrow> bool" where
  "csv_inv s = ([] \<notin> set (lines s) \<and> (out_of_cell s \<longrightarrow> \<not> cell_is_quoted s))"

text \<open>
  The grammar of a number in the words of the specification. The token is the longest run
  of number characters from the position on. It is well formed when it is an optional
  minus sign, an integer part of one or more digits that does not start with a zero
  followed by another digit, an optional fraction of a point and one or more digits, and
  an optional exponent of \<open>e\<close> or \<open>E\<close>, an optional sign and one or more digits.
\<close>

definition is_digit :: "pychar \<Rightarrow> bool" where
  "is_digit c = (ZERO \<le> c \<and> c \<le> NINE)"

definition number_token :: "pystr \<Rightarrow> nat \<Rightarrow> pystr" where
  "number_token json i = takeWhile (\<lambda>c. c \<in> set JSON_NUM_CHARS) (drop i json)"

definition number_grammar :: "pystr \<Rightarrow> bool" where
  "number_grammar tok =
     (\<exists>sign ip frac ex.
        tok = sign @ ip @ frac @ ex
        \<and> (sign = [] \<or> sign = [MINUS])
        \<and> ip \<noteq> [] \<and> list_all is_digit ip \<and> \<not> (2 \<le> length ip \<and> hd ip = ZERO)
        \<and> (frac = [] \<or> (\<exists>ds. frac = DOT # ds \<and> ds \<noteq> [] \<and> list_all is_digit ds))
        \<and> (ex = [] \<or> (\<exists>e sg ds. ex = e # sg @ ds \<and> (e = 101 \<or> e = 69)
                            \<and> (sg = [] \<or> sg = [PLUS] \<or> sg = [MINUS])
                            \<and> ds \<noteq> [] \<and> list_all is_digit ds)))"

text \<open>
  The checks that \<open>parse_json_number\<close> makes, as conditions on the token: on the
  exponent, on the part before it, and on the whole token.
\<close>

definition exponent_checks :: "pystr \<Rightarrow> bool" where
  "exponent_checks rest =
     (rest = [] \<or>
      (let a0 = tl rest;
           a = (if a0 \<noteq> [] \<and> (hd a0 = PLUS \<or> hd a0 = MINUS) then tl a0 else a0)
       in a \<noteq> [] \<and> list_all is_digit a))"

definition mantissa_checks :: "pystr \<Rightarrow> bool" where
  "mantissa_checks be =
     (be \<noteq> [] \<and> last be \<noteq> DOT \<and> list_all (\<lambda>c. is_digit c \<or> c = DOT) be
      \<and> count_list be DOT \<le> 1)"

definition token_checks :: "pystr \<Rightarrow> bool" where
  "token_checks tok =
     (tok \<noteq> [] \<and>
      (let num = (if hd tok = MINUS then tl tok else tok)
       in \<not> (num \<noteq> [] \<and> hd num = DOT)
          \<and> \<not> (2 \<le> length num \<and> num ! 0 = ZERO \<and> is_digit (num ! 1))
          \<and> mantissa_checks (takeWhile (\<lambda>c. c \<noteq> 101 \<and> c \<noteq> 69) num)
          \<and> exponent_checks (dropWhile (\<lambda>c. c \<noteq> 101 \<and> c \<noteq> 69) num)))"

text \<open>
  The members of an object text in the order in which they appear: \<open>object_members\<close>
  reads an object as \<open>parse_json_obj\<close> does, and returns the list of all its key and
  value pairs with the index after the closing brace, or \<open>None\<close> when the text is not an
  object. \<open>first_occurrences\<close> keeps the first occurrence of every element of a list.
\<close>

fun first_occurrences :: "'a list \<Rightarrow> 'a list" where
  "first_occurrences [] = []"
| "first_occurrences (x # xs) = x # filter (\<lambda>y. y \<noteq> x) (first_occurrences xs)"

fun members_from ::
  "'f float_ops \<Rightarrow> nat \<Rightarrow> pystr \<Rightarrow> nat \<Rightarrow> ((pystr \<times> 'f pyval) list \<times> nat) option" where
  "members_from F 0 json i0 = None"
| "members_from F (Suc fuel) json i0 =
     (case parse_json_str json i0 of
        Inl e \<Rightarrow> None
      | Inr (key, i1) \<Rightarrow>
          (let i2 = skip_whitespace json i1 in
           if i2 < length json \<and> json ! i2 = COLON then
             (case parse_json_base F fuel json (skip_whitespace json (Suc i2)) of
                Some (Inr (val, i3)) \<Rightarrow>
                  (let i4 = skip_whitespace json i3 in
                   if i4 < length json \<and> json ! i4 = RBRACE then Some ([(key, val)], i4 + 1)
                   else if i4 < length json \<and> json ! i4 = COMMA then
                     (case members_from F fuel json (skip_whitespace json (Suc i4)) of
                        None \<Rightarrow> None
                      | Some (ps, j) \<Rightarrow> Some ((key, val) # ps, j))
                   else None)
              | _ \<Rightarrow> None)
           else None))"

definition object_members ::
  "'f float_ops \<Rightarrow> nat \<Rightarrow> pystr \<Rightarrow> nat \<Rightarrow> ((pystr \<times> 'f pyval) list \<times> nat) option" where
  "object_members F fuel json i0 =
     (if i0 < length json \<and> json ! i0 = LBRACE then
        (let i = skip_whitespace json (Suc i0) in
         if i < length json \<and> json ! i = RBRACE then Some ([], i + 1)
         else members_from F fuel json i)
      else None)"

text \<open>
  Notions for the CSV round trip. A cell is special when \<open>str_to_csv\<close> quotes it;
  \<open>dbl\<close> doubles its quote characters. A cell is good when it neither begins nor ends
  with the quote character. \<open>between\<close> holds of the scan state between two cells, with
  the rows \<open>ls\<close> completed and the cells \<open>row\<close> of the current row read.
\<close>

definition dbl :: "pystr \<Rightarrow> pystr" where
  "dbl cell = concat (map (\<lambda>x. if x = DQUOTE then [DQUOTE, DQUOTE] else [x]) cell)"

definition special :: "pystr \<Rightarrow> bool" where
  "special cell \<longleftrightarrow> DQUOTE \<in> set cell \<or> COMMA \<in> set cell \<or> NEWLINE \<in> set cell"

definition good_cell :: "pystr \<Rightarrow> bool" where
  "good_cell cell \<longleftrightarrow> cell = [] \<or> (hd cell \<noteq> DQUOTE \<and> last cell \<noteq> DQUOTE)"

abbreviation dloop :: "pystr \<Rightarrow> csv_state \<Rightarrow> nat list \<Rightarrow> error + csv_state" where
  "dloop csv \<equiv> csv_loop csv [DQUOTE] [COMMA] [NEWLINE]"

abbreviation enc :: "pystr \<Rightarrow> pystr" where
  "enc cell \<equiv> str_to_csv cell [DQUOTE] [COMMA] [NEWLINE]"

definition between :: "pystr list list \<Rightarrow> pystr list \<Rightarrow> csv_state \<Rightarrow> bool" where
  "between ls row s \<longleftrightarrow>
     lines s = ls \<and> current_row s = row \<and> out_of_cell s \<and> \<not> cell_is_quoted s"

abbreviation row_text :: "pystr list \<Rightarrow> pystr" where
  "row_text cells \<equiv> py_join [COMMA] (map enc cells)"

abbreviation table_text :: "pystr list list \<Rightarrow> pystr" where
  "table_text rows \<equiv> py_join [NEWLINE] (map row_text rows)"

section \<open>The position resolver\<close>

lemma line_col_loop_append:
  "line_col_loop s (xs @ ys) acc =
     (case line_col_loop s xs acc of Inl e \<Rightarrow> Inl e | Inr acc' \<Rightarrow> line_col_loop s ys acc')"
  by (induction s xs acc rule: line_col_loop.induct) auto

lemma line_col_loop_upt:
  "index \<le> length text \<Longrightarrow>
   line_col_loop text [0..<index] (0, 0) =
     Inr (length (newlines_before text index),
          if newlines_before text index = [] then 0 else last (newlines_before text index))"
proof (induction index)
  case 0
  show ?case by (simp add: newlines_before_def)
next
  case (Suc k)
  then have IH: "line_col_loop text [0..<k] (0, 0) =
     Inr (length (newlines_before text k),
          if newlines_before text k = [] then 0 else last (newlines_before text k))"
    and k: "k < length text" by simp_all
  show ?case
    using k by (simp add: line_col_loop_append IH newlines_before_def)
qed

text \<open>
  Claim C8. For an offset into the text, \<open>get_line_and_col\<close> (and the same loop in
  \<open>format_err_str\<close>) returns as line the number of newline characters strictly before
  the offset, and as column the offset minus the index of the last newline before it, or
  the offset itself when no newline precedes it.
\<close>

theorem get_line_and_col_spec:
  assumes "offset \<le> length text"
  shows "get_line_and_col text offset =
           Inr (length (newlines_before text offset),
                if newlines_before text offset = [] then offset
                else offset - last (newlines_before text offset))
       \<and> format_err_str text offset =
           Inr (Position offset (length (newlines_before text offset))
                (if newlines_before text offset = [] then offset
                 else offset - last (newlines_before text offset)))
       \<and> length (newlines_before text offset) =
           length (filter (\<lambda>c. c = NEWLINE) (take offset text))"
proof -
  have "length (newlines_before text offset) = length (filter (\<lambda>c. c = NEWLINE) (take offset text))"
  proof -
    have "take offset text = map ((!) text) [0..<offset]"
      using assms by (simp add: list_eq_iff_nth_eq)
    then show ?thesis
      by (simp add: newlines_before_def filter_map o_def)
  qed
  then show ?thesis
    using assms by (simp add: get_line_and_col_def format_err_str_def line_col_loop_upt)
qed

theorem get_line_and_col_spec_witness:
  "get_line_and_col (py ''ab\<newline>cd\<newline>ef'') 7 = Inr (2, 2)
   \<and> format_err_str (py ''ab\<newline>cd\<newline>ef'') 7 = Inr (Position 7 2 2)
   \<and> get_line_and_col (py ''abc'') 2 = Inr (0, 2)"
  using get_line_and_col_spec [of 7 "py ''ab\<newline>cd\<newline>ef''"]
    get_line_and_col_spec [of 2 "py ''abc''"]
  by (simp add: py_def newlines_before_def upt_rec)

section \<open>The CSV scan\<close>

lemma csv_loop_append:
  "csv_loop csv q c n s (xs @ ys) =
     (case csv_loop csv q c n s xs of Inl e \<Rightarrow> Inl e | Inr s' \<Rightarrow> csv_loop csv q c n s' ys)"
  by (induction xs arbitrary: s) (auto split: sum.splits)

lemma csv_step_inv:
  "csv_step csv q c n s i = Inr s' \<Longrightarrow> csv_inv s \<Longrightarrow> csv_inv s'"
  by (auto simp: csv_step_def csv_inv_def Let_def split: if_splits sum.splits prod.splits)

lemma csv_loop_inv:
  "csv_loop csv q c n s is = Inr s' \<Longrightarrow> csv_inv s \<Longrightarrow> csv_inv s'"
  by (induction "is" arbitrary: s) (auto split: sum.splits dest: csv_step_inv)

lemma csv_scan_inv: "csv_scan csv q c n = Inr s \<Longrightarrow> csv_inv s"
  unfolding csv_scan_def by (erule csv_loop_inv) (simp add: csv_inv_def csv_init_def)

text \<open>
  Claim C9. Every row of a table that \<open>parse_csv\<close> returns has at least one cell; the
  empty input gives the table with no rows, and the input \<open>a\<close> followed by the row
  separator gives the one row \<open>[a]\<close>, with no empty row after it.
\<close>

theorem parse_csv_rows_nonempty:
  "(parse_csv csv q c n = Inr t \<longrightarrow> (\<forall>row \<in> set t. row \<noteq> []))
   \<and> csv_parse [] = Inr []
   \<and> csv_parse (py ''a\<newline>'') = Inr [[py ''a'']]"
proof (intro conjI impI)
  assume p: "parse_csv csv q c n = Inr t"
  then obtain s where s: "csv_scan csv q c n = Inr s" and f: "csv_finish csv c s = Inr t"
    by (auto simp: parse_csv_def split: sum.splits)
  have "[] \<notin> set (lines s)"
    using csv_scan_inv [OF s] by (simp add: csv_inv_def)
  with f show "\<forall>row \<in> set t. row \<noteq> []"
    by (auto simp: csv_finish_def Let_def split: if_splits)
next
  show "csv_parse [] = Inr []"
    by (simp add: csv_parse_def parse_csv_def csv_scan_def csv_finish_def csv_init_def
        py_endswith_def)
next
  show "csv_parse (py ''a\<newline>'') = Inr [[py ''a'']]"
    by code_simp
qed

theorem parse_csv_rows_nonempty_witness:
  "parse_csv (py ''a,b\<newline>\<newline>c'') [DQUOTE] [COMMA] [NEWLINE]
     = Inr [[py ''a'', py ''b''], [[]], [py ''c'']]
   \<and> [] \<notin> set [[py ''a'', py ''b''], [[]], [py ''c'']]"
proof -
  have e: "parse_csv (py ''a,b\<newline>\<newline>c'') [DQUOTE] [COMMA] [NEWLINE]
             = Inr [[py ''a'', py ''b''], [[]], [py ''c'']]"
    by code_simp
  from parse_csv_rows_nonempty
         [of "py ''a,b\<newline>\<newline>c''" "[DQUOTE]" "[COMMA]" "[NEWLINE]"
             "[[py ''a'', py ''b''], [[]], [py ''c'']]"] e
  show ?thesis by blast
qed

text \<open>
  Claim C6. When the scan of the input ends inside a quoted cell whose closing quote was
  not reached, \<open>parse_csv\<close> raises the end-of-input syntax error; when it ends inside an
  unquoted cell, the cell is closed with the text from its start to the end of the input;
  and when it ends outside a cell on an input that ends with the field separator, one
  empty cell is appended to the last row.
\<close>

theorem parse_csv_end_of_input:
  assumes "csv_scan csv q c n = Inr s"
  shows "(cell_is_quoted s \<and> \<not> last_was_quote s \<longrightarrow>
            parse_csv csv q c n = Inl (SyntaxError (CsvEndOfInput (length csv))))
       \<and> (\<not> cell_is_quoted s \<and> \<not> out_of_cell s \<longrightarrow>
            parse_csv csv q c n = Inr (lines s @ [current_row s @ [drop (cell_start_ind s) csv]]))
       \<and> (out_of_cell s \<and> py_endswith csv c \<longrightarrow>
            parse_csv csv q c n = Inr (lines s @ [current_row s @ [[]]]))"
proof -
  have "out_of_cell s \<longrightarrow> \<not> cell_is_quoted s"
    using csv_scan_inv [OF assms] by (simp add: csv_inv_def)
  then show ?thesis
    using assms by (auto simp: parse_csv_def csv_finish_def py_slice_from_def)
qed

theorem parse_csv_end_of_input_witness:
  "parse_csv (py ''x,\"a'') [DQUOTE] [COMMA] [NEWLINE] = Inl (SyntaxError (CsvEndOfInput 4))
   \<and> parse_csv (py ''x\<newline>y,ab'') [DQUOTE] [COMMA] [NEWLINE]
       = Inr [[py ''x''], [py ''y'', py ''ab'']]
   \<and> parse_csv (py ''x\<newline>y,'') [DQUOTE] [COMMA] [NEWLINE]
       = Inr [[py ''x''], [py ''y'', []]]"
proof -
  have s1: "csv_scan (py ''x,\"a'') [DQUOTE] [COMMA] [NEWLINE] =
      Inr \<lparr>lines = [], current_row = [py ''x''], out_of_cell = False,
           cell_start_ind = 2, cell_is_quoted = True, last_was_quote = False\<rparr>"
    by code_simp
  have s2: "csv_scan (py ''x\<newline>y,ab'') [DQUOTE] [COMMA] [NEWLINE] =
      Inr \<lparr>lines = [[py ''x'']], current_row = [py ''y''], out_of_cell = False,
           cell_start_ind = 4, cell_is_quoted = False, last_was_quote = False\<rparr>"
    by code_simp
  have s3: "csv_scan (py ''x\<newline>y,'') [DQUOTE] [COMMA] [NEWLINE] =
      Inr \<lparr>lines = [[py ''x'']], current_row = [py ''y''], out_of_cell = True,
           cell_start_ind = 2, cell_is_quoted = False, last_was_quote = False\<rparr>"
    by code_simp
  show ?thesis
    using parse_csv_end_of_input [OF s1] parse_csv_end_of_input [OF s2]
      parse_csv_end_of_input [OF s3]
    by (simp add: py_def py_endswith_def)
qed

section \<open>The CSV cell serialiser\<close>

text \<open>
  Claim C3. The claim asks for the cell to be wrapped in the given quote character, with
  that character doubled. \<open>str_to_csv\<close> tests for the given quote character, but wraps
  in the double quote and doubles the double quote, whatever the quote character is: with
  the apostrophe as quote character the cell \<open>a'b\<close> becomes \<open>"a'b"\<close>.
\<close>

theorem str_to_csv_hardcoded_quote:
  "str_to_csv (py ''a'b'') [39] [COMMA] [NEWLINE] = [DQUOTE] @ py ''a'b'' @ [DQUOTE]
   \<and> parse_csv (str_to_csv (py ''a'b'') [39] [COMMA] [NEWLINE]) [39] [COMMA] [NEWLINE]
       = Inl (SyntaxError (CsvUnexpectedQuote 2 0 0 0 2))"
  by code_simp

section \<open>Evaluating the string functions\<close>

lemma py_replace_single:
  "py_replace [a] new s = concat (map (\<lambda>c. if c = a then new else [c]) s)"
proof (induction s)
  case Nil
  show ?case by (subst py_replace.simps) simp
next
  case (Cons x xs)
  show ?case by (subst py_replace.simps) (simp add: Cons)
qed

lemma py_str_nat_digit: "n < 10 \<Longrightarrow> py_str_nat n = [ZERO + n]"
  by (subst py_str_nat.simps) simp

lemma py_hex_digit: "n < 16 \<Longrightarrow> py_hex n = [hex_digit n]"
  by (subst py_hex.simps) simp

section \<open>The JSON serialiser on a literal\<close>

text \<open>
  Claim C7. \<open>to_json\<close> of the object with \<open>a\<close> mapped to 1 and \<open>b\<close> mapped to the array
  of 1 and 2, with \<open>spaces = 2\<close>, is the seven-line text of the specification.
\<close>

theorem to_json_pretty_literal:
  "to_json F (PDict [(py ''a'', PInt 1), (py ''b'', PList [PInt 1, PInt 2])]) (Some (SpacesInt 2))
     = Inr (py ''{\<newline>  \"a\": 1,\<newline>  \"b\": [\<newline>    1,\<newline>    2\<newline>  ]\<newline>}'')"
  by (simp add: py_def spaces_str_def escape_str_for_json_def py_replace_single
      increase_indent_def chop_point_zero_def py_endswith_def py_str_int_def py_str_nat_digit
      numeral_2_eq_2)

section \<open>Whitespace\<close>

lemma skip_whitespace_eq:
  "i \<le> length json \<Longrightarrow>
   skip_whitespace json i = i + length (takeWhile (\<lambda>c. c \<in> set JSON_WHITESPACE) (drop i json))"
proof (induction json i rule: skip_whitespace.induct)
  case (1 json i)
  show ?case
  proof (cases "i < length json")
    case True
    then have d: "drop i json = json ! i # drop (Suc i) json"
      by (simp add: Cons_nth_drop_Suc)
    show ?thesis
      using 1 True by (subst skip_whitespace.simps) (simp add: d)
  next
    case False
    then show ?thesis using 1 by (subst skip_whitespace.simps) simp
  qed
qed

text \<open>
  Claim C10. On the empty string and on any input made of spaces, tabs, carriage returns
  and line feeds only, \<open>parse_json\<close> raises the syntax error for an unexpected end of
  file, at the offset that is the length of the input, and returns no value.
\<close>

theorem parse_json_whitespace_only:
  assumes "set ws \<subseteq> {32, 9, 13, 10}"
  shows "parse_json F ws = Some (Inl (SyntaxError (EndOfFile (length ws))))"
proof -
  have "\<forall>c \<in> set ws. c \<in> set JSON_WHITESPACE"
    using assms by (auto simp: JSON_WHITESPACE_def)
  then have "takeWhile (\<lambda>c. c \<in> set JSON_WHITESPACE) ws = ws"
    by (simp only: takeWhile_eq_all_conv)
  then have "skip_whitespace ws 0 = length ws"
    using skip_whitespace_eq [of 0 ws] by (simp only: drop_0 add_0 le0)
  then show ?thesis
    by (simp add: parse_json_def)
qed

theorem parse_json_whitespace_only_witness:
  "parse_json integral_floats [] = Some (Inl (SyntaxError (EndOfFile 0)))
   \<and> parse_json integral_floats [32, 9, 13, 10, 32] = Some (Inl (SyntaxError (EndOfFile 5)))"
  using parse_json_whitespace_only [of "[]" integral_floats]
    parse_json_whitespace_only [of "[32, 9, 13, 10, 32]" integral_floats]
  by simp

section \<open>The grammar of numbers\<close>

lemma number_end_eq:
  "i \<le> length json \<Longrightarrow> number_end json i = i + length (number_token json i)"
proof (induction json i rule: number_end.induct)
  case (1 json i)
  show ?case
  proof (cases "i < length json")
    case True
    then have d: "drop i json = json ! i # drop (Suc i) json"
      by (simp add: Cons_nth_drop_Suc)
    show ?thesis
      using 1 True by (subst number_end.simps) (simp add: d number_token_def)
  next
    case False
    then show ?thesis using 1 by (subst number_end.simps) (simp add: number_token_def)
  qed
qed

lemma number_slice:
  "i \<le> length json \<Longrightarrow> py_slice json i (number_end json i) = number_token json i"
  by (simp add: number_end_eq py_slice_def number_token_def takeWhile_eq_take [symmetric])

lemma number_token_length: "i + length (number_token json i) \<le> length json \<or> length json < i"
proof -
  have "length (number_token json i) \<le> length (drop i json)"
    unfolding number_token_def by (rule length_takeWhile_le)
  then show ?thesis by auto
qed

lemma syntax_error_at_in_range:
  "idx \<le> length json \<Longrightarrow> \<exists>p. syntax_error_at msg json idx = SyntaxError (msg p)"
  by (auto simp: syntax_error_at_def format_err_str_def line_col_loop_upt)

lemma before_e_loop_cases:
  "i + length cs \<le> length json \<Longrightarrow>
   (if list_all (\<lambda>c. is_digit c \<or> c = DOT) cs \<and> count_list cs DOT + (if rd then 1 else 0) \<le> 1
    then \<exists>j. before_e_loop json cs rd i = Inr j
    else \<exists>m. before_e_loop json cs rd i = Inl (SyntaxError m))"
proof (induction cs arbitrary: rd i)
  case Nil
  show ?case by simp
next
  case (Cons c cs)
  have r: "i + length cs \<le> length json" "Suc i + length cs \<le> length json" "i \<le> length json"
    using Cons.prems by simp_all
  show ?case
    using Cons.IH [OF r(1), of rd] Cons.IH [OF r(2), of True] 
      syntax_error_at_in_range [OF r(3), of SecondDecimalPoint]
      syntax_error_at_in_range [OF r(3), of "ExpectedDigit c"]
    by (auto simp: is_digit_def split: if_splits)
qed

lemma after_e_loop_cases:
  "i + length cs \<le> length json \<Longrightarrow>
   (if list_all is_digit cs
    then \<exists>j. after_e_loop json cs i = Inr j
    else \<exists>m. after_e_loop json cs i = Inl (SyntaxError m))"
proof (induction cs arbitrary: i)
  case Nil
  show ?case by simp
next
  case (Cons c cs)
  have r: "Suc i + length cs \<le> length json" "i \<le> length json"
    using Cons.prems by simp_all
  show ?case
    using Cons.IH [OF r(1)] syntax_error_at_in_range [OF r(2), of "ExpectedDigit c"]
    by (auto simp: is_digit_def split: if_splits)
qed

lemma py_startswith_single: "py_startswith s [c] 0 = (s \<noteq> [] \<and> hd s = c)"
  by (cases s) (auto simp: py_startswith_def)

lemma py_endswith_single: "py_endswith s [c] = (s \<noteq> [] \<and> last s = c)"
proof (cases s rule: rev_cases)
  case Nil
  then show ?thesis by (simp add: py_endswith_def)
next
  case (snoc ys y)
  then show ?thesis by (auto simp: py_endswith_def)
qed

lemma py_lower_e: "(py_lower c \<noteq> 101) = (c \<noteq> 101 \<and> c \<noteq> 69)"
  by (auto simp: py_lower_def)

lemma number_exponent_cases:
  assumes "length num \<le> length json"
  shows "if exponent_checks (dropWhile (\<lambda>c. c \<noteq> 101 \<and> c \<noteq> 69) num)
         then number_exponent F json num (length (takeWhile (\<lambda>c. c \<noteq> 101 \<and> c \<noteq> 69) num)) full ind
                = Inr (PFloat (float_of_str F full), ind)
         else \<exists>m. number_exponent F json num (length (takeWhile (\<lambda>c. c \<noteq> 101 \<and> c \<noteq> 69) num)) full ind
                = Inl (SyntaxError m)"
proof -
  define be where "be = takeWhile (\<lambda>c. c \<noteq> 101 \<and> c \<noteq> 69) num"
  define rest where "rest = dropWhile (\<lambda>c. c \<noteq> 101 \<and> c \<noteq> 69) num"
  have split: "be @ rest = num" by (simp add: be_def rest_def)
  then have len: "length be + length rest = length num" by (metis length_append)
  have a0: "drop (Suc (length be)) num = tl rest"
    unfolding rest_def be_def by (simp add: dropWhile_eq_drop drop_Suc tl_drop)
  show ?thesis
  proof (cases "rest = []")
    case True
    then show ?thesis
      using len by (simp add: be_def [symmetric] rest_def [symmetric] number_exponent_def
          exponent_checks_def)
  next
    case False
    define a0 where "a0 = py_slice_from num (length be + 1)"
    define signed where "signed \<longleftrightarrow> py_startswith a0 [PLUS] 0 \<or> py_startswith a0 [MINUS] 0"
    define a where "a = (if signed then py_slice_from a0 1 else a0)"
    define i2 where "i2 = (if signed then length be + 1 + 1 else length be + 1)"
    have ne: "length be \<noteq> length num" using False len by auto
    have unf: "number_exponent F json num (length be) full ind =
        (if length a = 0 then Inl (syntax_error_at EndOfNumber json i2)
         else (case after_e_loop json a i2 of Inl e \<Rightarrow> Inl e
               | Inr i \<Rightarrow> Inr (PFloat (float_of_str F full), ind)))"
      unfolding number_exponent_def Let_def a0_def signed_def a_def i2_def
      using ne by (simp only: if_True not_False_eq_True)
    have a0': "a0 = tl rest"
      using a0 by (simp add: a0_def py_slice_from_def)
    have sg: "signed \<longleftrightarrow> a0 \<noteq> [] \<and> (hd a0 = PLUS \<or> hd a0 = MINUS)"
      by (auto simp: signed_def py_startswith_single)
    have a': "a = (if signed then tl a0 else a0)"
      by (simp add: a_def py_slice_from_def drop_Suc)
    have la: "i2 + length a = length num"
      using False len by (cases rest; cases a0) (auto simp: i2_def a' a0' sg)
    then have b1: "i2 + length a \<le> length json" and b2: "i2 \<le> length json"
      using assms by simp_all
    have ec: "exponent_checks rest \<longleftrightarrow> a \<noteq> [] \<and> list_all is_digit a"
      using False by (simp add: exponent_checks_def Let_def a' sg a0')
    show ?thesis
      unfolding be_def [symmetric] rest_def [symmetric] unf ec
      using after_e_loop_cases [OF b1] syntax_error_at_in_range [OF b2, of EndOfNumber]
      by (auto split: if_splits)
  qed
qed

lemma number_before_exponent_cases:
  assumes "i + length num \<le> length json"
  shows "if mantissa_checks (takeWhile (\<lambda>c. c \<noteq> 101 \<and> c \<noteq> 69) num)
            \<and> exponent_checks (dropWhile (\<lambda>c. c \<noteq> 101 \<and> c \<noteq> 69) num)
         then number_before_exponent F json num i full ind = Inr (PFloat (float_of_str F full), ind)
         else \<exists>m. number_before_exponent F json num i full ind = Inl (SyntaxError m)"
proof -
  define be where "be = takeWhile (\<lambda>c. c \<noteq> 101 \<and> c \<noteq> 69) num"
  define rest where "rest = dropWhile (\<lambda>c. c \<noteq> 101 \<and> c \<noteq> 69) num"
  have lbe: "length be \<le> length num"
    unfolding be_def by (rule length_takeWhile_le)
  have pe: "(\<lambda>c. py_lower c \<noteq> 101) = (\<lambda>c. c \<noteq> 101 \<and> c \<noteq> 69)"
    by (simp add: py_lower_e)
  have sl: "py_slice num 0 (length be) = be"
    unfolding be_def py_slice_def by (simp add: takeWhile_eq_take [symmetric])
  have unf: "number_before_exponent F json num i full ind =
      (if be \<noteq> [] \<and> last be = DOT
         then Inl (syntax_error_at DecimalPointLast json (i + length be - 1))
       else if be = [] then Inl (syntax_error_at EmptyNonExponent json i)
       else (case before_e_loop json be False i of
               Inl e \<Rightarrow> Inl e
             | Inr j \<Rightarrow> number_exponent F json num (length be) full ind))"
    unfolding number_before_exponent_def Let_def pe be_def [symmetric] sl
    by (simp add: py_endswith_single)
  have b1: "i + length be - 1 \<le> length json" and b2: "i \<le> length json"
    and b3: "i + length be \<le> length json" and b4: "length num \<le> length json"
    using assms lbe by simp_all
  note ex = number_exponent_cases [OF b4, of F full ind, unfolded be_def [symmetric] rest_def [symmetric]]
  note bl = before_e_loop_cases [OF b3, of False]
  show ?thesis
    unfolding be_def [symmetric] rest_def [symmetric] unf mantissa_checks_def
    using ex bl syntax_error_at_in_range [OF b1, of DecimalPointLast]
      syntax_error_at_in_range [OF b2, of EmptyNonExponent]
    by (auto split: if_splits)
qed

lemma parse_json_number_cases:
  assumes i: "i \<le> length json"
  shows "if token_checks (number_token json i)
         then parse_json_number F json i
                = Inr (PFloat (float_of_str F (number_token json i)),
                       i + length (number_token json i))
         else \<exists>m. parse_json_number F json i = Inl (SyntaxError m)"
proof -
  define tok where "tok = number_token json i"
  have lt: "i + length tok \<le> length json"
    using number_token_length [of i json] i unfolding tok_def by auto
  have sl: "py_slice json i (i + length tok) = tok"
    using number_slice [OF i] by (simp add: number_end_eq [OF i] tok_def)
  have ne: "number_end json i = i + length tok"
    by (simp add: number_end_eq [OF i] tok_def)
  show ?thesis
  proof (cases "tok = []")
    case True
    then show ?thesis
      using syntax_error_at_in_range [OF i, of EmptyNumber] sl
      by (auto simp: tok_def [symmetric] token_checks_def parse_json_number_def ne)
  next
    case False
    define negative where "negative \<longleftrightarrow> py_startswith tok [MINUS] 0"
    define num where "num = (if negative then py_slice_from tok 1 else tok)"
    define i1 where "i1 = (if negative then i + 1 else i)"
    have t0: "(length tok = 0) = False" using False by simp
    have unf0: "parse_json_number F json i =
        (if py_startswith num [DOT] 0 then Inl (syntax_error_at DecimalPointFirst json i1)
         else if length num \<ge> 2 \<and> num ! 0 = ZERO \<and> num ! 1 \<ge> ZERO \<and> num ! 1 \<le> NINE
           then Inl (syntax_error_at DigitAfterZero json (i1 + 1))
         else number_before_exponent F json num i1
                (if negative then MINUS # num else num) (i + length tok))"
      unfolding parse_json_number_def Let_def ne sl negative_def num_def i1_def
      by (simp only: t0 if_False)
    have neg: "negative \<longleftrightarrow> hd tok = MINUS"
      using False by (simp add: negative_def py_startswith_single)
    have num': "num = (if hd tok = MINUS then tl tok else tok)"
      by (simp add: num_def neg py_slice_from_def drop_Suc)
    have full: "(if negative then MINUS # num else num) = tok"
      using False by (cases tok) (auto simp: num' neg)
    have ln: "i1 + length num = i + length tok"
      using False by (cases tok) (auto simp: num' i1_def neg)
    have unf: "parse_json_number F json i =
        (if num \<noteq> [] \<and> hd num = DOT then Inl (syntax_error_at DecimalPointFirst json i1)
         else if 2 \<le> length num \<and> num ! 0 = ZERO \<and> is_digit (num ! 1)
           then Inl (syntax_error_at DigitAfterZero json (i1 + 1))
         else number_before_exponent F json num i1 tok (i + length tok))"
      unfolding unf0 full py_startswith_single is_digit_def by (simp add: conj_ac)
    have b1: "i1 \<le> length json" and b3: "i1 + length num \<le> length json"
      using ln lt by simp_all
    have b2: "2 \<le> length num \<Longrightarrow> i1 + 1 \<le> length json"
      using ln lt by simp
    have tc: "token_checks tok \<longleftrightarrow>
        \<not> (num \<noteq> [] \<and> hd num = DOT)
        \<and> \<not> (2 \<le> length num \<and> num ! 0 = ZERO \<and> is_digit (num ! 1))
        \<and> mantissa_checks (takeWhile (\<lambda>c. c \<noteq> 101 \<and> c \<noteq> 69) num)
        \<and> exponent_checks (dropWhile (\<lambda>c. c \<noteq> 101 \<and> c \<noteq> 69) num)"
      using False by (simp add: token_checks_def Let_def num')
    show ?thesis
      unfolding tok_def [symmetric] unf tc
      using number_before_exponent_cases [OF b3, of F tok "i + length tok"]
        syntax_error_at_in_range [OF b1, of DecimalPointFirst]
        syntax_error_at_in_range [OF b2, of DigitAfterZero]
      by (auto split: if_splits)
  qed
qed

lemma is_digit_other:
  "is_digit c \<Longrightarrow> c \<noteq> DOT \<and> c \<noteq> MINUS \<and> c \<noteq> PLUS \<and> c \<noteq> 101 \<and> c \<noteq> 69"
  by (auto simp: is_digit_def)

lemma digits_no_special:
  assumes "list_all is_digit ds" "c \<in> set ds"
  shows "c \<noteq> DOT \<and> c \<noteq> 101 \<and> c \<noteq> 69 \<and> c \<noteq> PLUS \<and> c \<noteq> MINUS"
proof -
  have "is_digit c" using assms by (simp add: list_all_iff)
  then show ?thesis by (auto simp: is_digit_def)
qed

lemma digits_count_dot: "list_all is_digit ds \<Longrightarrow> count_list ds DOT = 0"
  using digits_no_special by (fastforce simp: count_list_0_iff)

lemma digits_last: "list_all is_digit ds \<Longrightarrow> ds \<noteq> [] \<Longrightarrow> last ds \<noteq> DOT"
  using digits_no_special [of ds "last ds"] by simp

lemma grammar_imp_checks:
  assumes "number_grammar tok"
  shows "token_checks tok"
proof -
  let ?P = "\<lambda>c::nat. c \<noteq> 101 \<and> c \<noteq> 69"
  from assms obtain sign ip frac ex where
    tok: "tok = sign @ ip @ frac @ ex"
    and sign: "sign = [] \<or> sign = [MINUS]"
    and ip: "ip \<noteq> []" "list_all is_digit ip" "\<not> (2 \<le> length ip \<and> hd ip = ZERO)"
    and frac: "frac = [] \<or> (\<exists>ds. frac = DOT # ds \<and> ds \<noteq> [] \<and> list_all is_digit ds)"
    and ex: "ex = [] \<or> (\<exists>e sg ds. ex = e # sg @ ds \<and> (e = 101 \<or> e = 69)
                            \<and> (sg = [] \<or> sg = [PLUS] \<or> sg = [MINUS])
                            \<and> ds \<noteq> [] \<and> list_all is_digit ds)"
    unfolding number_grammar_def by blast
  obtain d ip' where ipc: "ip = d # ip'" using ip(1) by (cases ip) auto
  have d: "is_digit d" and ip': "list_all is_digit ip'" using ip(2) ipc by simp_all
  define num where "num = ip @ frac @ ex"
  have num: "(if hd tok = MINUS then tl tok else tok) = num"
    using sign is_digit_other [OF d] by (auto simp: tok ipc num_def)
  have Pip: "\<forall>c \<in> set (ip @ frac). ?P c"
  proof
    fix c assume "c \<in> set (ip @ frac)"
    then consider "c \<in> set ip" | ds where "frac = DOT # ds" "list_all is_digit ds" "c = DOT \<or> c \<in> set ds"
      using frac by auto
    then show "?P c"
    proof cases
      case 1
      then show ?thesis using digits_no_special [OF ip(2)] by blast
    next
      case 2
      then show ?thesis using digits_no_special [of ds c] by auto
    qed
  qed
  have tw_ex: "takeWhile ?P ex = []" and dw_ex: "dropWhile ?P ex = ex"
    using ex by auto
  have be: "takeWhile ?P num = ip @ frac"
  proof -
    have "takeWhile ?P ((ip @ frac) @ ex) = (ip @ frac) @ takeWhile ?P ex"
      using Pip by (intro takeWhile_append2) blast
    then show ?thesis by (simp add: num_def tw_ex)
  qed
  have rest: "dropWhile ?P num = ex"
  proof -
    have "dropWhile ?P ((ip @ frac) @ ex) = dropWhile ?P ex"
      using Pip by (intro dropWhile_append2) blast
    then show ?thesis by (simp add: num_def dw_ex)
  qed
  have c1: "\<not> (num \<noteq> [] \<and> hd num = DOT)"
    using is_digit_other [OF d] by (simp add: num_def ipc)
  have c2: "\<not> (2 \<le> length num \<and> num ! 0 = ZERO \<and> is_digit (num ! 1))"
  proof (cases ip')
    case Nil
    then show ?thesis
      using frac ex by (auto simp: num_def ipc is_digit_def)
  next
    case (Cons a as)
    then show ?thesis using ip(3) by (simp add: num_def ipc)
  qed
  have m: "mantissa_checks (ip @ frac)"
  proof -
    have "count_list ip DOT = 0"
      using ip(2) by (rule digits_count_dot)
    moreover have "count_list frac DOT \<le> 1"
      using frac digits_count_dot by auto
    moreover have "last (ip @ frac) \<noteq> DOT"
      using frac ip(1,2) digits_last by auto
    moreover have "list_all (\<lambda>c. is_digit c \<or> c = DOT) (ip @ frac)"
      using frac ip(2) by (auto simp: list_all_iff)
    ultimately show ?thesis using ip(1) by (simp add: mantissa_checks_def)
  qed
  have e: "exponent_checks ex"
  proof (cases "ex = []")
    case True
    then show ?thesis by (simp add: exponent_checks_def)
  next
    case False
    then obtain e sg ds where "ex = e # sg @ ds" "sg = [] \<or> sg = [PLUS] \<or> sg = [MINUS]"
      "ds \<noteq> []" "list_all is_digit ds"
      using ex by blast
    then show ?thesis
      using is_digit_other [of "hd ds"]
      by (cases ds) (auto simp: exponent_checks_def Let_def)
  qed
  show ?thesis
    unfolding token_checks_def Let_def num be rest
    using c1 c2 m e by (simp add: tok ipc)
qed

lemma checks_imp_grammar:
  assumes "token_checks tok"
  shows "number_grammar tok"
proof -
  let ?P = "\<lambda>c::nat. c \<noteq> 101 \<and> c \<noteq> 69"
  define num where "num = (if hd tok = MINUS then tl tok else tok)"
  define be where "be = takeWhile ?P num"
  define rest where "rest = dropWhile ?P num"
  define sign where "sign = (if hd tok = MINUS then [MINUS] else [])"
  define ip where "ip = takeWhile is_digit be"
  define frac where "frac = dropWhile is_digit be"
  from assms have tok: "tok \<noteq> []"
    and c1: "\<not> (num \<noteq> [] \<and> hd num = DOT)"
    and c2: "\<not> (2 \<le> length num \<and> num ! 0 = ZERO \<and> is_digit (num ! 1))"
    and m: "mantissa_checks be" and e: "exponent_checks rest"
    by (simp_all add: token_checks_def Let_def num_def be_def rest_def)
  from m have be: "be \<noteq> []" "last be \<noteq> DOT" "list_all (\<lambda>c. is_digit c \<or> c = DOT) be"
    "count_list be DOT \<le> 1"
    by (simp_all add: mantissa_checks_def)
  have t1: "tok = sign @ num"
    using tok by (cases tok) (auto simp: sign_def num_def)
  have t2: "num = be @ rest" by (simp add: be_def rest_def)
  have t3: "be = ip @ frac" by (simp add: ip_def frac_def)
  have hd_be: "hd be = hd num" using be(1) t2 by simp
  have "is_digit (hd be)"
    using be(1,3) c1 hd_be t2 by (cases be) auto
  then have ip1: "ip \<noteq> []"
    using be(1) by (cases be) (auto simp: ip_def)
  have ip2: "list_all is_digit ip"
    unfolding ip_def list_all_iff by (auto dest: set_takeWhileD)
  have ip3: "\<not> (2 \<le> length ip \<and> hd ip = ZERO)"
  proof
    assume a: "2 \<le> length ip \<and> hd ip = ZERO"
    then obtain x y zs where ipe: "ip = x # y # zs"
      by (cases ip; cases "tl ip") auto
    then have "num = x # y # zs @ frac @ rest" by (simp add: t2 t3)
    moreover have "is_digit y" using ip2 ipe by simp
    moreover have "x = ZERO" using a ipe by simp
    ultimately show False using c2 by simp
  qed
  have fr: "frac = [] \<or> (\<exists>ds. frac = DOT # ds \<and> ds \<noteq> [] \<and> list_all is_digit ds)"
  proof (cases frac)
    case Nil
    then show ?thesis by simp
  next
    case (Cons f ds)
    have "\<not> is_digit f"
      using Cons hd_dropWhile [of is_digit be] by (simp add: frac_def)
    moreover have all: "list_all (\<lambda>c. is_digit c \<or> c = DOT) frac"
      using be(3) t3 by simp
    ultimately have f: "f = DOT" using Cons by simp
    have "count_list (ip @ DOT # ds) DOT \<le> 1" using be(4) t3 Cons f by simp
    then have "count_list ds DOT = 0" by simp
    then have "DOT \<notin> set ds" by (simp add: count_list_0_iff)
    then have dd: "list_all is_digit ds"
      using all Cons by (auto simp: list_all_iff)
    have "ds \<noteq> []"
      using be(2) t3 Cons f by auto
    then show ?thesis using Cons f dd by simp
  qed
  have exg: "rest = [] \<or> (\<exists>e sg ds. rest = e # sg @ ds \<and> (e = 101 \<or> e = 69)
                            \<and> (sg = [] \<or> sg = [PLUS] \<or> sg = [MINUS])
                            \<and> ds \<noteq> [] \<and> list_all is_digit ds)"
  proof (cases rest)
    case Nil
    then show ?thesis by simp
  next
    case (Cons r a0)
    have r: "r = 101 \<or> r = 69"
      using Cons hd_dropWhile [of ?P num] by (auto simp: rest_def)
    define a where "a = (if a0 \<noteq> [] \<and> (hd a0 = PLUS \<or> hd a0 = MINUS) then tl a0 else a0)"
    have a: "a \<noteq> []" "list_all is_digit a"
      using e Cons by (simp_all add: exponent_checks_def Let_def a_def)
    have "\<exists>sg. a0 = sg @ a \<and> (sg = [] \<or> sg = [PLUS] \<or> sg = [MINUS])"
      by (cases a0) (auto simp: a_def)
    then show ?thesis using Cons r a by auto
  qed
  have "tok = sign @ ip @ frac @ rest" by (simp add: t1 t2 t3)
  moreover have "sign = [] \<or> sign = [MINUS]" by (simp add: sign_def)
  ultimately show ?thesis
    unfolding number_grammar_def using ip1 ip2 ip3 fr exg by blast
qed

lemma token_checks_iff_grammar: "token_checks tok \<longleftrightarrow> number_grammar tok"
  using grammar_imp_checks checks_imp_grammar by blast

text \<open>
  Claim C4. At a position of the input, with the token scanned greedily over the number
  characters, \<open>parse_json_number\<close> succeeds exactly when the token follows the number
  grammar; it then returns the float that \<open>float\<close> makes of the token, and the index
  after the token. Every other token raises a syntax error.
\<close>

theorem parse_json_number_grammar:
  assumes "i \<le> length json"
  shows "(number_grammar (number_token json i) \<longrightarrow>
            parse_json_number F json i
              = Inr (PFloat (float_of_str F (number_token json i)),
                     i + length (number_token json i)))
       \<and> (\<not> number_grammar (number_token json i) \<longrightarrow>
            (\<exists>m. parse_json_number F json i = Inl (SyntaxError m)))"
  using parse_json_number_cases [OF assms, of F] token_checks_iff_grammar [of "number_token json i"]
  by (auto split: if_splits)

theorem parse_json_number_grammar_witness:
  "parse_json_number integral_floats (py ''[-12.50e+3,01]'') 1
     = Inr (PFloat (float_of_str integral_floats (py ''-12.50e+3'')), 10)
   \<and> \<not> number_grammar (py ''01'')"
proof -
  have t1: "number_token (py ''[-12.50e+3,01]'') 1 = py ''-12.50e+3''"
    by (simp add: number_token_def py_def JSON_NUM_CHARS_def)
  have t2: "number_token (py ''[-12.50e+3,01]'') 11 = py ''01''"
    by (simp add: number_token_def py_def JSON_NUM_CHARS_def)
  have g: "number_grammar (py ''-12.50e+3'')"
    unfolding number_grammar_def
    apply (rule exI [of _ "[MINUS]"], rule exI [of _ "py ''12''"])
    apply (rule exI [of _ "py ''.50''"], rule exI [of _ "py ''e+3''"])
    apply (simp add: py_def is_digit_def)
    apply (rule exI [of _ "[PLUS]"], simp add: is_digit_def)
    done
  have l: "(1::nat) \<le> length (py ''[-12.50e+3,01]'')" "(11::nat) \<le> length (py ''[-12.50e+3,01]'')"
    by (simp_all add: py_def)
  have bad: "parse_json_number integral_floats (py ''[-12.50e+3,01]'') 11
               = Inl (SyntaxError (DigitAfterZero (Position 12 0 12)))"
    by code_simp
  show ?thesis
    using parse_json_number_grammar [OF l(1), of integral_floats, unfolded t1]
      parse_json_number_grammar [OF l(2), of integral_floats, unfolded t2] g bad
    by (auto simp: py_def)
qed

section \<open>Duplicate keys of an object\<close>

lemma obj_loop_members:
  "obj_loop F fuel json obj c i = Some (Inr (v, j)) \<Longrightarrow>
   \<exists>ps. members_from F fuel json i = Some (ps, j)
        \<and> v = PDict (foldl (\<lambda>d (k, x). dict_set d k x) obj ps)"
proof (induction fuel arbitrary: obj c i)
  case 0
  then show ?case by simp
next
  case (Suc fuel)
  from Suc.prems obtain key i1 where ks: "parse_json_str json i = Inr (key, i1)"
    by (auto split: sum.splits)
  define i2 where "i2 = skip_whitespace json i1"
  from Suc.prems ks have c2: "i2 < length json" "json ! i2 = COLON"
    by (auto simp: i2_def Let_def split: if_splits)
  from Suc.prems ks c2 obtain val i3 where
    vs: "parse_json_base F fuel json (skip_whitespace json (Suc i2)) = Some (Inr (val, i3))"
    by (auto simp: i2_def [symmetric] Let_def split: option.splits sum.splits)
  define i4 where "i4 = skip_whitespace json i3"
  from Suc.prems ks c2 vs have c4: "i4 < length json"
    by (auto simp: i2_def [symmetric] i4_def Let_def split: if_splits)
  show ?case
  proof (cases "json ! i4 = RBRACE")
    case True
    then show ?thesis
      using Suc.prems ks c2 vs c4
      by (auto simp: i2_def [symmetric] i4_def [symmetric] Let_def)
  next
    case False
    from Suc.prems ks c2 vs c4 False have cm: "json ! i4 = COMMA"
      by (auto simp: i2_def [symmetric] i4_def [symmetric] Let_def split: if_splits)
    from Suc.prems ks c2 vs c4 False cm
    have "obj_loop F fuel json (dict_set obj key val) (Some (json ! i4))
            (skip_whitespace json (Suc i4)) = Some (Inr (v, j))"
      by (auto simp: i2_def [symmetric] i4_def [symmetric] Let_def)
    from Suc.IH [OF this] obtain ps where
      "members_from F fuel json (skip_whitespace json (Suc i4)) = Some (ps, j)"
      "v = PDict (foldl (\<lambda>d (k, x). dict_set d k x) (dict_set obj key val) ps)"
      by blast
    then show ?thesis
      using ks c2 vs c4 False cm
      by (auto simp: i2_def [symmetric] i4_def [symmetric] Let_def)
  qed
qed

lemma keys_dict_set:
  "map fst (dict_set d k v) = (if k \<in> set (map fst d) then map fst d else map fst d @ [k])"
  by (induction d k v rule: dict_set.induct) auto

lemma map_of_dict_set: "map_of (dict_set d k v) = (map_of d)(k \<mapsto> v)"
  by (induction d k v rule: dict_set.induct) auto

lemma keys_fold_dict_set:
  "map fst (foldl (\<lambda>d (k, x). dict_set d k x) obj ps)
     = map fst obj @ filter (\<lambda>k. k \<notin> set (map fst obj)) (first_occurrences (map fst ps))"
proof (induction ps arbitrary: obj)
  case Nil
  show ?case by simp
next
  case (Cons p ps)
  obtain k v where p: "p = (k, v)" by (cases p)
  show ?case
  proof (cases "k \<in> set (map fst obj)")
    case True
    have "filter (\<lambda>x. x \<notin> set (map fst obj)) (filter (\<lambda>y. y \<noteq> k) (first_occurrences (map fst ps)))
          = filter (\<lambda>x. x \<notin> set (map fst obj)) (first_occurrences (map fst ps))"
      using True by (auto intro: filter_cong)
    then show ?thesis
      using True by (simp add: p Cons.IH keys_dict_set)
  next
    case False
    have "filter (\<lambda>x. x \<notin> set (map fst obj) \<and> x \<noteq> k) (first_occurrences (map fst ps))
          = filter (\<lambda>x. x \<notin> set (map fst obj)) (filter (\<lambda>y. y \<noteq> k) (first_occurrences (map fst ps)))"
      by (auto intro: filter_cong)
    then show ?thesis
      using False by (simp add: p Cons.IH keys_dict_set conj_commute)
  qed
qed

lemma map_of_fold_dict_set:
  "map_of (foldl (\<lambda>d (k, x). dict_set d k x) obj ps) = map_of obj ++ map_of (rev ps)"
proof (induction ps arbitrary: obj)
  case Nil
  show ?case by simp
next
  case (Cons p ps)
  obtain k v where p: "p = (k, v)" by (cases p)
  show ?case
    by (rule ext)
      (auto simp: p Cons.IH map_of_dict_set map_add_def split: option.splits)
qed

lemma catch_IndexError_Inr [simp]: "catch_IndexError json r = Inr x \<longleftrightarrow> r = Inr x"
  by (auto simp: catch_IndexError_def split: sum.splits error.splits)

lemma map_catch_Inr [simp]:
  "map_option (catch_IndexError json) z = Some (Inr x) \<longleftrightarrow> z = Some (Inr x)"
  by (cases z) auto

text \<open>
  Claim C5. When \<open>parse_json_obj\<close> succeeds, the keys of the object it returns are the
  keys of the text in the order of their first occurrence, and every key has the value of
  its last occurrence in the text.
\<close>

theorem parse_json_obj_duplicate_keys:
  assumes "parse_json_obj F fuel json i = Some (Inr (v, j))"
  shows "\<exists>obj ps. v = PDict obj
           \<and> object_members F fuel json i = Some (ps, j)
           \<and> map fst obj = first_occurrences (map fst ps)
           \<and> map_of obj = map_of (rev ps)"
proof -
  have b: "i < length json" "json ! i = LBRACE"
    using assms by (auto split: if_splits)
  define i1 where "i1 = skip_whitespace json (Suc i)"
  have unf: "parse_json_obj F fuel json i =
      map_option (catch_IndexError json)
        (if length json \<le> i1 then Some (Inl IndexError)
         else if json ! i1 = RBRACE then Some (Inr (PDict [], i1 + 1))
         else obj_loop F fuel json [] None i1)"
    using b by (simp add: i1_def)
  have b1: "i1 < length json"
    using assms unfolding unf by (auto split: if_splits)
  show ?thesis
  proof (cases "json ! i1 = RBRACE")
    case True
    then have "v = PDict []" "j = i1 + 1"
      using assms b1 unfolding unf by simp_all
    moreover have "object_members F fuel json i = Some ([], i1 + 1)"
      using b b1 True by (simp add: object_members_def i1_def [symmetric])
    ultimately show ?thesis by simp
  next
    case False
    have "obj_loop F fuel json [] None i1 = Some (Inr (v, j))"
      using assms b1 False unfolding unf by simp
    from obj_loop_members [OF this] obtain ps where
      ps: "members_from F fuel json i1 = Some (ps, j)"
      and v: "v = PDict (foldl (\<lambda>d (k, x). dict_set d k x) [] ps)"
      by blast
    have "object_members F fuel json i = Some (ps, j)"
      using b b1 False ps by (simp add: object_members_def i1_def [symmetric])
    then show ?thesis
      using v keys_fold_dict_set [of "[]" ps] map_of_fold_dict_set [of "[]" ps] by simp
  qed
qed

text \<open>The equations that evaluate the parsers on a given input.\<close>

lemmas json_eval = py_def JSON_NUM_START_CHARS_def
  parse_json_number_def number_end.simps JSON_NUM_CHARS_def number_before_exponent_def
  number_exponent_def py_slice_def py_startswith_def py_endswith_def py_slice_from_def
  py_lower_def integral_floats_def int_of_digits_def digits_value_def Let_def
  parse_json_str_def str_loop.simps catch_IndexError_def skip_whitespace.simps
  JSON_WHITESPACE_def

theorem parse_json_obj_duplicate_keys_witness:
  "parse_json_obj integral_floats 5 (py ''{\"a\":1,\"b\":2,\"a\":3}'') 0
     = Some (Inr (PDict [(py ''a'', PFloat 3), (py ''b'', PFloat 2)], 19))
   \<and> (\<exists>ps. object_members integral_floats 5 (py ''{\"a\":1,\"b\":2,\"a\":3}'') 0 = Some (ps, 19)
          \<and> [py ''a'', py ''b''] = first_occurrences (map fst ps)
          \<and> map_of [(py ''a'', PFloat 3), (py ''b'', PFloat 2)] = map_of (rev ps))"
proof -
  have e: "parse_json_obj integral_floats 5 (py ''{\"a\":1,\"b\":2,\"a\":3}'') 0
             = Some (Inr (PDict [(py ''a'', PFloat 3), (py ''b'', PFloat 2)], 19))"
  proof -
    have f: "(5::nat) = Suc (Suc (Suc (Suc (Suc 0))))" by simp
    show ?thesis unfolding f by (simp add: json_eval)
  qed
  from parse_json_obj_duplicate_keys [OF e] show ?thesis
    using e by auto
qed

section \<open>The CSV round trip\<close>

lemma py_contains_single: "py_contains [x] s \<longleftrightarrow> x \<in> set s"
  by (induction s) auto

lemma str_to_csv_default:
  "str_to_csv cell [DQUOTE] [COMMA] [NEWLINE]
     = (if special cell then DQUOTE # dbl cell @ [DQUOTE] else cell)"
  by (simp add: str_to_csv_def py_contains_single special_def dbl_def py_replace_single)

lemma replace_dbl: "py_replace [DQUOTE, DQUOTE] [DQUOTE] (dbl cell) = cell"
proof (induction cell)
  case Nil
  show ?case by (subst py_replace.simps) (simp add: dbl_def)
next
  case (Cons x xs)
  show ?case
  proof (cases "x = DQUOTE")
    case True
    then have "dbl (x # xs) = DQUOTE # DQUOTE # dbl xs" by (simp add: dbl_def)
    then show ?thesis
      using True Cons by (subst py_replace.simps) simp
  next
    case False
    then have "dbl (x # xs) = x # dbl xs" by (simp add: dbl_def)
    then show ?thesis
      using False Cons by (subst py_replace.simps) simp
  qed
qed

lemma dbl_hd: "cell \<noteq> [] \<Longrightarrow> hd cell \<noteq> DQUOTE \<Longrightarrow> dbl cell \<noteq> [] \<and> hd (dbl cell) \<noteq> DQUOTE"
  by (cases cell) (auto simp: dbl_def)

lemma dbl_append: "dbl (xs @ ys) = dbl xs @ dbl ys"
  by (simp add: dbl_def)

lemma dbl_last: "cell \<noteq> [] \<Longrightarrow> last cell \<noteq> DQUOTE \<Longrightarrow> dbl cell \<noteq> [] \<and> last (dbl cell) \<noteq> DQUOTE"
  by (cases cell rule: rev_cases) (auto simp: dbl_append, auto simp: dbl_def)

lemma strip_quotes:
  assumes "s \<noteq> []" "hd s \<noteq> DQUOTE" "last s \<noteq> DQUOTE"
  shows "py_strip [DQUOTE] (DQUOTE # s @ [DQUOTE]) = s"
proof -
  obtain a as where s: "s = a # as" using assms(1) by (cases s) auto
  have 1: "dropWhile (\<lambda>c. c \<in> set [DQUOTE]) (DQUOTE # s @ [DQUOTE]) = s @ [DQUOTE]"
    using assms(2) by (simp add: s)
  obtain b bs where r: "s = bs @ [b]" using assms(1) by (cases s rule: rev_cases) auto
  have 2: "dropWhile (\<lambda>c. c \<in> set [DQUOTE]) (rev (s @ [DQUOTE])) = rev s"
    using assms(3) by (simp add: r)
  show ?thesis
    unfolding py_strip_def 1 2 by simp
qed

lemma unescape_enc:
  assumes "good_cell cell" "special cell"
  shows "unescape_csv_cell (DQUOTE # dbl cell @ [DQUOTE]) = cell"
proof -
  have ne: "cell \<noteq> []" using assms(2) by (auto simp: special_def)
  then have "hd cell \<noteq> DQUOTE" "last cell \<noteq> DQUOTE"
    using assms(1) by (auto simp: good_cell_def)
  then have "py_strip [DQUOTE] (DQUOTE # dbl cell @ [DQUOTE]) = dbl cell"
    using ne dbl_hd dbl_last by (intro strip_quotes) auto
  then show ?thesis
    by (simp add: unescape_csv_cell_def replace_dbl)
qed

lemma csv_loop_range:
  "a \<le> b \<Longrightarrow> b \<le> c \<Longrightarrow>
   csv_loop csv q cm n s [a..<c] =
     (case csv_loop csv q cm n s [a..<b] of Inl e \<Rightarrow> Inl e
      | Inr s' \<Rightarrow> csv_loop csv q cm n s' [b..<c])"
proof -
  assume "a \<le> b" "b \<le> c"
  then have "[a..<c] = [a..<b] @ [b..<c]"
    by (metis le_Suc_ex upt_add_eq_append)
  then show ?thesis by (simp add: csv_loop_append)
qed

lemma csv_loop_first:
  "a < b \<Longrightarrow>
   csv_loop csv q cm n s [a..<b] =
     (case csv_step csv q cm n s a of Inl e \<Rightarrow> Inl e
      | Inr s' \<Rightarrow> csv_loop csv q cm n s' [Suc a..<b])"
  by (simp add: upt_conv_Cons)

text \<open>Inside an unquoted cell, plain characters leave the state as it is.\<close>

lemma scan_plain:
  assumes "csv = pre @ seg @ post"
    and "\<forall>x \<in> set seg. x \<noteq> DQUOTE \<and> x \<noteq> COMMA \<and> x \<noteq> NEWLINE"
  shows "dloop csv \<lparr>lines = ls, current_row = row, out_of_cell = False, cell_start_ind = st,
                    cell_is_quoted = False, last_was_quote = False\<rparr>
           [length pre..<length pre + length seg]
         = Inr \<lparr>lines = ls, current_row = row, out_of_cell = False, cell_start_ind = st,
                cell_is_quoted = False, last_was_quote = False\<rparr>"
  using assms
proof (induction seg arbitrary: pre)
  case Nil
  show ?case by simp
next
  case (Cons x seg)
  have x: "csv ! length pre = x" using Cons.prems(1) by simp
  have csv: "csv = (pre @ [x]) @ seg @ post" using Cons.prems(1) by simp
  have step: "csv_step csv [DQUOTE] [COMMA] [NEWLINE]
        \<lparr>lines = ls, current_row = row, out_of_cell = False, cell_start_ind = st,
         cell_is_quoted = False, last_was_quote = False\<rparr> (length pre)
      = Inr \<lparr>lines = ls, current_row = row, out_of_cell = False, cell_start_ind = st,
             cell_is_quoted = False, last_was_quote = False\<rparr>"
    using Cons.prems(2) by (simp add: csv_step_def x)
  show ?case
    using Cons.IH [OF csv] Cons.prems(2)
    by (simp add: csv_loop_first step del: upt_Suc)
qed

text \<open>Inside a quoted cell, the doubled text of a cell leaves the state as it is.\<close>

lemma scan_doubled:
  assumes "csv = pre @ dbl cell @ post"
  shows "dloop csv \<lparr>lines = ls, current_row = row, out_of_cell = False, cell_start_ind = st,
                    cell_is_quoted = True, last_was_quote = False\<rparr>
           [length pre..<length pre + length (dbl cell)]
         = Inr \<lparr>lines = ls, current_row = row, out_of_cell = False, cell_start_ind = st,
                cell_is_quoted = True, last_was_quote = False\<rparr>"
  using assms
proof (induction cell arbitrary: pre)
  case Nil
  show ?case by (simp add: dbl_def)
next
  case (Cons x cell)
  show ?case
  proof (cases "x = DQUOTE")
    case True
    then have d: "dbl (x # cell) = DQUOTE # DQUOTE # dbl cell" by (simp add: dbl_def)
    have x1: "csv ! length pre = DQUOTE" and x2: "csv ! Suc (length pre) = DQUOTE"
      using Cons.prems d by (simp_all add: nth_append)
    have csv: "csv = (pre @ [DQUOTE, DQUOTE]) @ dbl cell @ post"
      using Cons.prems d by simp
    have s1: "csv_step csv [DQUOTE] [COMMA] [NEWLINE]
        \<lparr>lines = ls, current_row = row, out_of_cell = False, cell_start_ind = st,
         cell_is_quoted = True, last_was_quote = False\<rparr> (length pre)
      = Inr \<lparr>lines = ls, current_row = row, out_of_cell = False, cell_start_ind = st,
             cell_is_quoted = True, last_was_quote = True\<rparr>"
      by (simp add: csv_step_def x1)
    have s2: "csv_step csv [DQUOTE] [COMMA] [NEWLINE]
        \<lparr>lines = ls, current_row = row, out_of_cell = False, cell_start_ind = st,
         cell_is_quoted = True, last_was_quote = True\<rparr> (Suc (length pre))
      = Inr \<lparr>lines = ls, current_row = row, out_of_cell = False, cell_start_ind = st,
             cell_is_quoted = True, last_was_quote = False\<rparr>"
      by (simp add: csv_step_def x2)
    show ?thesis
      using Cons.IH [OF csv]
      by (simp add: d csv_loop_first s1 s2 del: upt_Suc)
  next
    case False
    then have d: "dbl (x # cell) = x # dbl cell" by (simp add: dbl_def)
    have x1: "csv ! length pre = x"
      using Cons.prems d by (simp add: nth_append)
    have csv: "csv = (pre @ [x]) @ dbl cell @ post"
      using Cons.prems d by simp
    have s1: "csv_step csv [DQUOTE] [COMMA] [NEWLINE]
        \<lparr>lines = ls, current_row = row, out_of_cell = False, cell_start_ind = st,
         cell_is_quoted = True, last_was_quote = False\<rparr> (length pre)
      = Inr \<lparr>lines = ls, current_row = row, out_of_cell = False, cell_start_ind = st,
             cell_is_quoted = True, last_was_quote = False\<rparr>"
      using False by (simp add: csv_step_def x1)
    show ?thesis
      using Cons.IH [OF csv]
      by (simp add: d csv_loop_first s1 del: upt_Suc)
  qed
qed

lemma between_state:
  "between ls row s \<Longrightarrow>
   s = \<lparr>lines = ls, current_row = row, out_of_cell = True, cell_start_ind = cell_start_ind s,
        cell_is_quoted = False, last_was_quote = last_was_quote s\<rparr>"
  by (simp add: between_def)

lemma scan_cell_body:
  assumes csv: "csv = pre @ enc cell @ post" and ne: "cell \<noteq> []" and b: "between ls row s"
  shows "dloop csv s [length pre..<length pre + length (enc cell)]
         = Inr \<lparr>lines = ls, current_row = row, out_of_cell = False, cell_start_ind = length pre,
                cell_is_quoted = special cell, last_was_quote = special cell\<rparr>"
proof (cases "special cell")
  case False
  obtain x xs where c: "cell = x # xs" using ne by (cases cell) auto
  have e: "enc cell = x # xs" using False by (simp add: str_to_csv_default c)
  have xs: "x \<noteq> DQUOTE \<and> x \<noteq> COMMA \<and> x \<noteq> NEWLINE"
    "\<forall>y \<in> set xs. y \<noteq> DQUOTE \<and> y \<noteq> COMMA \<and> y \<noteq> NEWLINE"
    using False by (auto simp: special_def c)
  have x: "csv ! length pre = x" using csv e by simp
  have csv': "csv = (pre @ [x]) @ xs @ post" using csv e by simp
  have s1: "csv_step csv [DQUOTE] [COMMA] [NEWLINE] s (length pre)
      = Inr \<lparr>lines = ls, current_row = row, out_of_cell = False, cell_start_ind = length pre,
             cell_is_quoted = False, last_was_quote = False\<rparr>"
    using xs(1) by (subst between_state [OF b]) (simp add: csv_step_def x)
  show ?thesis
    using scan_plain [OF csv' xs(2), of ls row "length pre"] False
    by (simp add: e csv_loop_first s1 del: upt_Suc)
next
  case True
  have e: "enc cell = DQUOTE # dbl cell @ [DQUOTE]"
    using True by (simp add: str_to_csv_default)
  have x: "csv ! length pre = DQUOTE" using csv e by simp
  have csv': "csv = (pre @ [DQUOTE]) @ dbl cell @ (DQUOTE # post)" using csv e by simp
  define p where "p = Suc (length pre + length (dbl cell))"
  have xp: "csv ! p = DQUOTE"
    using csv' by (simp add: p_def nth_append)
  have s1: "csv_step csv [DQUOTE] [COMMA] [NEWLINE] s (length pre)
      = Inr \<lparr>lines = ls, current_row = row, out_of_cell = False, cell_start_ind = length pre,
             cell_is_quoted = True, last_was_quote = False\<rparr>"
    by (subst between_state [OF b]) (simp add: csv_step_def x)
  have s2: "dloop csv \<lparr>lines = ls, current_row = row, out_of_cell = False,
                       cell_start_ind = length pre, cell_is_quoted = True,
                       last_was_quote = False\<rparr> [Suc (length pre)..<p]
      = Inr \<lparr>lines = ls, current_row = row, out_of_cell = False, cell_start_ind = length pre,
             cell_is_quoted = True, last_was_quote = False\<rparr>"
    using scan_doubled [OF csv', of ls row "length pre"] by (simp add: p_def)
  have s3: "csv_step csv [DQUOTE] [COMMA] [NEWLINE]
        \<lparr>lines = ls, current_row = row, out_of_cell = False, cell_start_ind = length pre,
         cell_is_quoted = True, last_was_quote = False\<rparr> p
      = Inr \<lparr>lines = ls, current_row = row, out_of_cell = False, cell_start_ind = length pre,
             cell_is_quoted = True, last_was_quote = True\<rparr>"
    by (simp add: csv_step_def xp)
  have rng: "[length pre..<length pre + length (enc cell)] = length pre # [Suc (length pre)..<p] @ [p]"
  proof -
    have "length pre + length (enc cell) = Suc p" by (simp add: e p_def)
    moreover have "[length pre..<Suc p] = [length pre..<p] @ [p]" by (simp add: p_def)
    moreover have "[length pre..<p] = length pre # [Suc (length pre)..<p]"
      by (simp add: p_def upt_conv_Cons del: upt_Suc)
    ultimately show ?thesis by simp
  qed
  show ?thesis
    using True by (simp only: rng csv_loop.simps s1 sum.case csv_loop_append s2 s3)
qed

lemma scan_separator:
  assumes csv: "csv = pre @ enc cell @ sep # post"
    and sep: "sep = COMMA \<or> sep = NEWLINE"
    and good: "good_cell cell"
    and b: "between ls row s"
  shows "\<exists>s'. dloop csv s [length pre..<Suc (length pre + length (enc cell))] = Inr s'
              \<and> between (if sep = NEWLINE then ls @ [row @ [cell]] else ls)
                         (if sep = NEWLINE then [] else row @ [cell]) s'"
proof (cases "cell = []")
  case True
  then have e: "enc cell = []" by (simp add: str_to_csv_default special_def)
  have x: "csv ! length pre = sep" using csv e by simp
  have "csv_step csv [DQUOTE] [COMMA] [NEWLINE] s (length pre)
      = Inr \<lparr>lines = (if sep = NEWLINE then ls @ [row @ [cell]] else ls),
             current_row = (if sep = NEWLINE then [] else row @ [cell]),
             out_of_cell = True, cell_start_ind = length pre,
             cell_is_quoted = False, last_was_quote = False\<rparr>"
    using sep True by (subst between_state [OF b]) (auto simp: csv_step_def x py_slice_def)
  then show ?thesis
    by (simp add: e between_def)
next
  case False
  define p where "p = length pre + length (enc cell)"
  have x: "csv ! p = sep" using csv by (simp add: p_def nth_append)
  have sl: "py_slice csv (length pre) p = enc cell"
    using csv by (simp add: py_slice_def p_def)
  have un: "(if special cell then unescape_csv_cell (enc cell) else enc cell) = cell"
    using good unescape_enc by (simp add: str_to_csv_default)
  have body: "dloop csv s [length pre..<p]
      = Inr \<lparr>lines = ls, current_row = row, out_of_cell = False, cell_start_ind = length pre,
             cell_is_quoted = special cell, last_was_quote = special cell\<rparr>"
    using scan_cell_body [OF _ False b, of csv pre "sep # post"] csv by (simp add: p_def)
  have step: "csv_step csv [DQUOTE] [COMMA] [NEWLINE]
        \<lparr>lines = ls, current_row = row, out_of_cell = False, cell_start_ind = length pre,
         cell_is_quoted = special cell, last_was_quote = special cell\<rparr> p
      = Inr \<lparr>lines = (if sep = NEWLINE then ls @ [row @ [cell]] else ls),
             current_row = (if sep = NEWLINE then [] else row @ [cell]),
             out_of_cell = True, cell_start_ind = length pre,
             cell_is_quoted = False, last_was_quote = False\<rparr>"
    using sep un by (cases "special cell") (auto simp: csv_step_def x sl Let_def)
  have rng: "[length pre..<Suc (length pre + length (enc cell))] = [length pre..<p] @ [p]"
    by (simp add: p_def)
  show ?thesis
    by (simp only: rng csv_loop_append body sum.case csv_loop.simps step)
      (simp add: between_def)
qed

lemma py_join_Cons:
  "ys \<noteq> [] \<Longrightarrow> py_join sep (x # ys) = x @ sep @ py_join sep ys"
  by (cases ys) auto

lemma scan_row:
  assumes "cells \<noteq> []"
    and "csv = pre @ row_text cells @ NEWLINE # post"
    and "\<forall>c \<in> set cells. good_cell c"
    and "between ls acc s"
  shows "\<exists>s'. dloop csv s [length pre..<Suc (length pre + length (row_text cells))] = Inr s'
              \<and> between (ls @ [acc @ cells]) [] s'"
  using assms
proof (induction cells arbitrary: pre acc s rule: list_nonempty_induct)
  case (single c)
  then show ?case
    using scan_separator [of csv pre c NEWLINE post ls acc s] by simp
next
  case (cons c cells)
  have rt: "py_join [COMMA] (enc c # map enc cells) = enc c @ COMMA # row_text cells"
    using cons.hyps by (simp add: py_join_Cons)
  have csv1: "csv = pre @ enc c @ COMMA # (row_text cells @ NEWLINE # post)"
    using cons.prems(1) rt by simp
  obtain s1 where s1: "dloop csv s [length pre..<Suc (length pre + length (enc c))] = Inr s1"
    and b1: "between ls (acc @ [c]) s1"
    using scan_separator [OF csv1 _ _ cons.prems(3)] cons.prems(2) by auto
  have csv2: "csv = (pre @ enc c @ [COMMA]) @ row_text cells @ NEWLINE # post"
    using csv1 by simp
  obtain s2 where
    s2: "dloop csv s1 [length (pre @ enc c @ [COMMA])
                        ..<Suc (length (pre @ enc c @ [COMMA]) + length (row_text cells))] = Inr s2"
    and b2: "between (ls @ [(acc @ [c]) @ cells]) [] s2"
    using cons.IH [OF csv2 _ b1] cons.prems(2) by auto
  have "dloop csv s [length pre..<Suc (length pre + length (row_text (c # cells)))] = Inr s2"
    using s1 s2
    by (subst csv_loop_range [of _ "Suc (length pre + length (enc c))"])
       (simp_all add: rt add.assoc del: upt_Suc)
  then show ?case using b2 by simp
qed

lemma scan_last_row:
  assumes "cells \<noteq> []"
    and "csv = pre @ row_text cells"
    and "\<forall>c \<in> set cells. good_cell c"
    and "between ls acc s"
    and "acc @ cells \<noteq> [[]]"
    and "acc \<noteq> [] \<longrightarrow> pre \<noteq> [] \<and> last pre = COMMA"
  shows "\<exists>s'. dloop csv s [length pre..<length csv] = Inr s'
              \<and> csv_finish csv [COMMA] s' = Inr (ls @ [acc @ cells])"
  using assms
proof (induction cells arbitrary: pre acc s rule: list_nonempty_induct)
  case (single c)
  show ?case
  proof (cases "c = []")
    case True
    then have e: "enc c = []" by (simp add: str_to_csv_default special_def)
    have csv: "csv = pre" using single.prems(1) e by simp
    have acc: "acc \<noteq> []" using single.prems(4) True by auto
    then have "py_endswith csv [COMMA]"
      using single.prems(5) csv by (cases pre rule: rev_cases) (auto simp: py_endswith_def)
    then have "csv_finish csv [COMMA] s = Inr (ls @ [acc @ [c]])"
      using single.prems(3) True by (simp add: csv_finish_def between_def)
    then show ?thesis by (simp add: csv)
  next
    case False
    have csv: "csv = pre @ enc c @ []" using single.prems(1) by simp
    have len: "length csv = length pre + length (enc c)" using single.prems(1) by simp
    have good: "good_cell c" using single.prems(2) by simp
    have un: "(if special c then unescape_csv_cell (enc c) else enc c) = c"
      using good unescape_enc by (simp add: str_to_csv_default)
    have dr: "drop (length pre) csv = enc c" using single.prems(1) by simp
    let ?s' = "\<lparr>lines = ls, current_row = acc, out_of_cell = False, cell_start_ind = length pre,
                cell_is_quoted = special c, last_was_quote = special c\<rparr>"
    have "dloop csv s [length pre..<length csv] = Inr ?s'"
      using scan_cell_body [OF csv False single.prems(3)] by (simp add: len)
    moreover have "csv_finish csv [COMMA] ?s' = Inr (ls @ [acc @ [c]])"
      using un by (cases "special c") (simp_all add: csv_finish_def py_slice_from_def dr)
    ultimately show ?thesis by blast
  qed
next
  case (cons c cells)
  have rt: "py_join [COMMA] (enc c # map enc cells) = enc c @ COMMA # row_text cells"
    using cons.hyps by (simp add: py_join_Cons)
  have csv1: "csv = pre @ enc c @ COMMA # row_text cells"
    using cons.prems(1) rt by simp
  obtain s1 where s1: "dloop csv s [length pre..<Suc (length pre + length (enc c))] = Inr s1"
    and b1: "between ls (acc @ [c]) s1"
    using scan_separator [OF csv1 _ _ cons.prems(3)] cons.prems(2) by auto
  have csv2: "csv = (pre @ enc c @ [COMMA]) @ row_text cells"
    using csv1 by simp
  have ne: "(acc @ [c]) @ cells \<noteq> [[]]"
    using cons.hyps by (cases cells) auto
  obtain s2 where
    s2: "dloop csv s1 [length (pre @ enc c @ [COMMA])..<length csv] = Inr s2"
    and f2: "csv_finish csv [COMMA] s2 = Inr (ls @ [(acc @ [c]) @ cells])"
    using cons.IH [OF csv2 _ b1 ne] cons.prems(2) by auto
  have "dloop csv s [length pre..<length csv] = Inr s2"
    using s1 s2 csv1
    by (subst csv_loop_range [of _ "Suc (length pre + length (enc c))"])
       (simp_all add: add.assoc del: upt_Suc)
  then show ?case using f2 by simp
qed

lemma scan_table:
  assumes "rows \<noteq> []"
    and "csv = pre @ table_text rows"
    and "\<forall>r \<in> set rows. r \<noteq> [] \<and> (\<forall>c \<in> set r. good_cell c)"
    and "last rows \<noteq> [[]]"
    and "between ls [] s"
  shows "\<exists>s'. dloop csv s [length pre..<length csv] = Inr s'
              \<and> csv_finish csv [COMMA] s' = Inr (ls @ rows)"
  using assms
proof (induction rows arbitrary: pre ls s rule: list_nonempty_induct)
  case (single r)
  then show ?case
    using scan_last_row [of r csv pre ls "[]" s] by simp
next
  case (cons r rows)
  have tt: "py_join [NEWLINE] (row_text r # map row_text rows)
              = row_text r @ NEWLINE # table_text rows"
    using cons.hyps by (simp add: py_join_Cons)
  have csv1: "csv = pre @ row_text r @ NEWLINE # table_text rows"
    using cons.prems(1) tt by simp
  obtain s1 where s1: "dloop csv s [length pre..<Suc (length pre + length (row_text r))] = Inr s1"
    and b1: "between (ls @ [r]) [] s1"
    using scan_row [OF _ csv1 _ cons.prems(4)] cons.prems(2) by auto
  have csv2: "csv = (pre @ row_text r @ [NEWLINE]) @ table_text rows"
    using csv1 by simp
  have lr: "last rows \<noteq> [[]]" using cons.prems(3) cons.hyps by simp
  obtain s2 where
    s2: "dloop csv s1 [length (pre @ row_text r @ [NEWLINE])..<length csv] = Inr s2"
    and f2: "csv_finish csv [COMMA] s2 = Inr ((ls @ [r]) @ rows)"
    using cons.IH [OF csv2 _ lr b1] cons.prems(2) by auto
  have "dloop csv s [length pre..<length csv] = Inr s2"
    using s1 s2 csv1
    by (subst csv_loop_range [of _ "Suc (length pre + length (row_text r))"])
       (simp_all add: add.assoc del: upt_Suc)
  then show ?case using f2 by simp
qed

text \<open>
  Claim C1, as amended. For a table in which every row has at least one cell, the last row
  is not the row of one empty cell, and no cell begins or ends with the quote character,
  parsing the serialised table with the default delimiters succeeds and gives the table
  back. The cells may hold quote characters inside, field separators and row separators,
  and the rows may differ in length.
\<close>

theorem csv_round_trip:
  assumes "\<forall>row \<in> set t. row \<noteq> [] \<and> (\<forall>cell \<in> set row. good_cell cell)"
    and "t \<noteq> [] \<longrightarrow> last t \<noteq> [[]]"
  shows "csv_parse (csv_serialize t) = Inr t"
proof (cases "t = []")
  case True
  then show ?thesis
    by (simp add: csv_parse_def csv_serialize_def strs_to_csv_def parse_csv_def csv_scan_def
        csv_finish_def csv_init_def py_endswith_def)
next
  case False
  have b: "between [] [] csv_init" by (simp add: between_def csv_init_def)
  have csv: "csv_serialize t = [] @ table_text t"
    by (simp add: csv_serialize_def strs_to_csv_def)
  obtain s' where "dloop (csv_serialize t) csv_init [length ([]::pystr)..<length (csv_serialize t)] = Inr s'"
    and "csv_finish (csv_serialize t) [COMMA] s' = Inr ([] @ t)"
    using scan_table [OF False csv assms(1) _ b] assms(2) False by auto
  then show ?thesis
    by (simp add: csv_parse_def parse_csv_def csv_scan_def)
qed

theorem csv_round_trip_witness:
  "csv_parse (csv_serialize
      [[py ''a\"b'', py ''x,y'', []], [py ''two\<newline>lines''], [[], py ''z'']])
     = Inr [[py ''a\"b'', py ''x,y'', []], [py ''two\<newline>lines''], [[], py ''z'']]"
  by (rule csv_round_trip) (simp_all add: good_cell_def py_def)

text \<open>
  Claim C1 as stated fails: the table of one row with one empty cell is serialised as the
  empty text, which parses to the table without rows.
\<close>

theorem csv_round_trip_counterexample:
  "csv_parse (csv_serialize [[[]]]) \<noteq> Inr [[[]]]"
  by (simp add: csv_parse_def csv_serialize_def strs_to_csv_def str_to_csv_def parse_csv_def
      csv_scan_def csv_finish_def csv_init_def py_endswith_def)

text \<open>
  Outside the amended claim: \<open>unescape_csv_cell\<close> strips every quote character at the
  two ends of a quoted cell, so a cell that begins or ends with the quote character does
  not come back.
\<close>

lemma csv_round_trip_leading_quote:
  "csv_parse (csv_serialize [[py ''\"a'']]) = Inr [[py ''a'']]"
  by code_simp

end
